theory Spec2Isabelle
  imports Main "HOL-Library.Word"
begin

unbundle bit_operations_syntax

section \<open>Data model of HiwonderBusServo.hpp\<close>

text \<open>
  Machine integers are words: \<open>uint8_t\<close> and \<open>int8_t\<close> are 8-bit words, \<open>uint16_t\<close>
  and \<open>int16_t\<close> are 16-bit words; signed comparisons read a word with \<open>sint\<close>.
  \<open>Buffer\<close> is \<open>std::array<uint8_t,10>\<close>: a list of bytes, ten long in every state the
  program reaches. An index that is computed from data is checked against the length,
  and reading or writing outside the array is undefined behaviour of the C++ program.
\<close>

type_synonym u8 = "8 word"
type_synonym i8 = "8 word"
type_synonym u16 = "16 word"
type_synonym i16 = "16 word"
type_synonym Buffer = "u8 list"

record MoveTime =
  position :: u16
  time :: u16

record Limit =
  minLimit :: i16
  maxLimit :: i16

text \<open>
  The three enums are \<open>enum class X: uint8_t\<close>: a value is any byte, and
  \<open>static_cast\<close> in either direction keeps the byte. The enumerators are named
  constants.
\<close>

datatype Mode = Mode u8
datatype LoadMode = LoadMode u8
datatype PowerLed = PowerLed u8

definition Servo :: Mode where "Servo = Mode 0"
definition Motor :: Mode where "Motor = Mode 1"
definition Unload :: LoadMode where "Unload = LoadMode 0"
definition Load :: LoadMode where "Load = LoadMode 1"
definition Off :: PowerLed where "Off = PowerLed 1"
definition On :: PowerLed where "On = PowerLed 0"

fun modeByte :: "Mode \<Rightarrow> u8" where "modeByte (Mode b) = b"
fun loadModeByte :: "LoadMode \<Rightarrow> u8" where "loadModeByte (LoadMode b) = b"
fun powerLedByte :: "PowerLed \<Rightarrow> u8" where "powerLedByte (PowerLed b) = b"

record ModeRead =
  mode :: Mode
  speed :: i16

record LedError =
  overTemperature :: bool
  overVoltage :: bool
  stall :: bool

text \<open>Every exception of the class is a \<open>std::runtime_error\<close> with a message.\<close>

datatype exn = runtime_error string

definition HeaderTimeoutError :: exn where
  "HeaderTimeoutError = runtime_error ''Unable to retrieve message header from servo''"
definition PayloadTimeoutError :: exn where
  "PayloadTimeoutError = runtime_error ''Unable to retrieve message content from servo''"
definition CorruptedMessageError :: exn where
  "CorruptedMessageError = runtime_error ''Corrupted message received''"

subsection \<open>The serial line (wiringSerial), as a scripted collaborator\<close>

text \<open>
  The transport is outside the repository. It is modelled by what the program can observe
  of it: \<open>availScript\<close> gives the answer of the n-th call of \<open>serialDataAvail\<close>,
  \<open>rxScript\<close> the answer of the n-th call of \<open>serialGetchar\<close> (an \<open>int\<close>: a byte, or
  -1), \<open>tx\<close> is the sequence of bytes written with \<open>serialPutchar\<close> so far, and
  \<open>flushes\<close> counts the calls of \<open>serialFlush\<close>. Nothing relates the two scripts: what
  is proved holds for every behaviour of the line.
\<close>

record Serial =
  availScript :: "nat \<Rightarrow> int"
  polls :: nat
  rxScript :: "nat \<Rightarrow> int"
  gets :: nat
  tx :: "u8 list"
  flushes :: nat

definition serialPutchar :: "u8 \<Rightarrow> Serial \<Rightarrow> Serial" where
  "serialPutchar c t = t\<lparr>tx := tx t @ [c]\<rparr>"

definition serialDataAvail :: "Serial \<Rightarrow> int \<times> Serial" where
  "serialDataAvail t = (availScript t (polls t), t\<lparr>polls := Suc (polls t)\<rparr>)"

definition serialGetchar :: "Serial \<Rightarrow> int \<times> Serial" where
  "serialGetchar t = (rxScript t (gets t), t\<lparr>gets := Suc (gets t)\<rparr>)"

definition serialFlush :: "Serial \<Rightarrow> Serial" where
  "serialFlush t = t\<lparr>flushes := Suc (flushes t)\<rparr>"

subsection \<open>Program state: the line and the function-local static buffers\<close>

text \<open>
  Every member function that builds a request keeps its frame in a function-local
  \<open>static Buffer buf\<close>, and \<open>getMessage\<close> keeps the reply in \<open>static Buffer res\<close>.
  A static lives for the whole program and is shared by all objects of the class, so the
  statics are part of the state: a store from the owning function to its buffer.
\<close>

datatype fn =
    F_getMessage
  | F_moveTimeWrite | F_moveTimeRead | F_moveTimeWaitWrite | F_moveTimeWaitRead
  | F_moveStart | F_moveStop | F_idWrite | F_idRead
  | F_angleOffsetAdjust | F_angleOffsetWrite | F_angleOffsetRead
  | F_angleLimitWrite | F_angleLimitRead | F_vinLimitWrite | F_vinLimitRead
  | F_tempMaxLimitWrite | F_tempMaxLimitRead | F_tempRead | F_vinRead | F_posRead
  | F_servoOrMotorModeWrite | F_servoOrMotorModeRead
  | F_loadOrUnloadWrite | F_loadOrUnloadRead
  | F_ledCtrlWrite | F_ledCtrlRead | F_ledErrorWrite | F_ledErrorRead

record state =
  serial :: Serial
  statics :: "fn \<Rightarrow> Buffer"

text \<open>
  How a call ends: it returns a value, it throws, or the program has undefined behaviour
  (an access outside a \<open>Buffer\<close>), after which nothing is known of the state.
\<close>

datatype 'a outcome = Returned 'a state | Thrown exn state | Undefined

definition FrameHeader :: u8 where "FrameHeader = 0x55"
definition pholder :: u8 where "pholder = 0"

text \<open>
  The initialiser of every request buffer is
  \<open>{FrameHeader, FrameHeader, _pholder, Size, Id, _pholder, ...}\<close>, the rest of the
  ten bytes being zero.
\<close>

definition template :: "u8 \<Rightarrow> u8 \<Rightarrow> Buffer" where
  "template sz cmd =
     [FrameHeader, FrameHeader, pholder, sz, cmd, pholder, pholder, pholder, pholder, pholder]"

fun initial :: "fn \<Rightarrow> Buffer" where
  "initial F_getMessage = replicate 10 0"
| "initial F_moveTimeWrite = template 7 1"
| "initial F_moveTimeRead = template 3 2"
| "initial F_moveTimeWaitWrite = template 7 7"
| "initial F_moveTimeWaitRead = template 3 8"
| "initial F_moveStart = template 3 11"
| "initial F_moveStop = template 3 12"
| "initial F_idWrite = template 4 13"
| "initial F_idRead = template 3 14"
| "initial F_angleOffsetAdjust = template 4 17"
| "initial F_angleOffsetWrite = template 3 18"
| "initial F_angleOffsetRead = template 3 19"
| "initial F_angleLimitWrite = template 7 20"
| "initial F_angleLimitRead = template 3 21"
| "initial F_vinLimitWrite = template 7 22"
| "initial F_vinLimitRead = template 3 23"
| "initial F_tempMaxLimitWrite = template 4 24"
| "initial F_tempMaxLimitRead = template 3 25"
| "initial F_tempRead = template 3 26"
| "initial F_vinRead = template 3 27"
| "initial F_posRead = template 3 28"
| "initial F_servoOrMotorModeWrite = template 7 29"
| "initial F_servoOrMotorModeRead = template 3 30"
| "initial F_loadOrUnloadWrite = template 4 31"
| "initial F_loadOrUnloadRead = template 3 32"
| "initial F_ledCtrlWrite = template 4 33"
| "initial F_ledCtrlRead = template 3 34"
| "initial F_ledErrorWrite = template 4 35"
| "initial F_ledErrorRead = template 3 36"

text \<open>The program at start, on a given line.\<close>

definition boot :: "Serial \<Rightarrow> state" where
  "boot t = \<lparr>serial = t, statics = initial\<rparr>"

section \<open>The frame codec\<close>

definition getLowByte :: "u16 \<Rightarrow> u8" where
  "getLowByte w = ucast w"

definition getHighByte :: "u16 \<Rightarrow> u8" where
  "getHighByte w = ucast (drop_bit 8 w)"

text \<open>
  \<open>checksum\<close>: \<open>for (size_t i=2; i<buf[3]+2u; ++i) temp += buf[i];\<close> on a
  \<open>uint16_t\<close>, then the low byte of the complement. \<open>None\<close> is a read outside the
  buffer.
\<close>

function checksum_loop :: "Buffer \<Rightarrow> nat \<Rightarrow> nat \<Rightarrow> u16 \<Rightarrow> u16 option" where
  "checksum_loop buf i n temp =
     (if i < n
      then (if i < length buf then checksum_loop buf (Suc i) n (temp + ucast (buf ! i)) else None)
      else Some temp)"
  by pat_completeness auto
termination
  by (relation "measure (\<lambda>(buf, i, n, temp). n - i)") auto

declare checksum_loop.simps [simp del]

definition checksum :: "Buffer \<Rightarrow> u8 option" where
  "checksum buf =
     (case checksum_loop buf 2 (unat (buf ! 3) + 2) 0 of
        None \<Rightarrow> None
      | Some temp \<Rightarrow> Some (getLowByte (NOT temp)))"

text \<open>\<open>sendBuf\<close>: \<open>for (size_t i=0; i< buf[3]+3u; ++i) serialPutchar(fd, buf[i]);\<close>\<close>

function sendBuf_loop :: "Buffer \<Rightarrow> nat \<Rightarrow> nat \<Rightarrow> Serial \<Rightarrow> Serial option" where
  "sendBuf_loop buf i n t =
     (if i < n
      then (if i < length buf then sendBuf_loop buf (Suc i) n (serialPutchar (buf ! i) t) else None)
      else Some t)"
  by pat_completeness auto
termination
  by (relation "measure (\<lambda>(buf, i, n, t). n - i)") auto

declare sendBuf_loop.simps [simp del]

definition sendBuf :: "Buffer \<Rightarrow> Serial \<Rightarrow> Serial option" where
  "sendBuf buf t = sendBuf_loop buf 0 (unat (buf ! 3) + 3) t"


section \<open>Receiving and checking a reply\<close>

definition MaxBusyLoop :: nat where "MaxBusyLoop = 20000"

text \<open>
  The busy wait
  \<open>for(size_t i=0; i<MaxBusyLoop && serialDataAvail(fd)<need; ++i) continue;\<close>
  The line is polled only while \<open>i<MaxBusyLoop\<close> holds (\<open>&&\<close> evaluates its right
  operand only then).
\<close>

function busyWait :: "nat \<Rightarrow> int \<Rightarrow> Serial \<Rightarrow> Serial" where
  "busyWait i need t =
     (if i < MaxBusyLoop
      then (if fst (serialDataAvail t) < need
            then busyWait (Suc i) need (snd (serialDataAvail t))
            else snd (serialDataAvail t))
      else t)"
  by pat_completeness auto
termination
  by (relation "measure (\<lambda>(i, need, t). MaxBusyLoop - i)") auto

declare busyWait.simps [simp del]

text \<open>
  The copy of the reply's content,
  \<open>for (size_t i=0; i<res[3]-1u; ++i) res[i+4] = serialGetchar(fd);\<close>
  The \<open>int\<close> that \<open>serialGetchar\<close> returns is converted to \<open>uint8_t\<close>. A write at
  \<open>res[i+4]\<close> outside the ten bytes is undefined behaviour (\<open>None\<close>). The writes are
  at index 4 and above, so the bound \<open>res[3]-1u\<close> is the same in every iteration.
\<close>

function readContent :: "nat \<Rightarrow> nat \<Rightarrow> Buffer \<Rightarrow> Serial \<Rightarrow> (Buffer \<times> Serial) option" where
  "readContent i n res t =
     (if i < n
      then (if i + 4 < length res
            then readContent (Suc i) n (res[i + 4 := word_of_int (fst (serialGetchar t))])
                   (snd (serialGetchar t))
            else None)
      else Some (res, t))"
  by pat_completeness auto
termination
  by (relation "measure (\<lambda>(i, n, res, t). n - i)") auto

declare readContent.simps [simp del]

text \<open>
  \<open>getMessage\<close>. The reply is left in the static \<open>res\<close>. In \<open>res[3]-1\<close> the byte is
  promoted to \<open>int\<close>; in \<open>res[3]-1u\<close> it is converted to \<open>unsigned\<close> (32 bits), so a
  length byte 0 gives the bound \<open>2^32 - 1\<close>.
\<close>

definition getMessage :: "state \<Rightarrow> unit outcome" where
  "getMessage s =
     (let res = statics s F_getMessage;
          t1 = busyWait 0 4 (serial s);
          a1 = fst (serialDataAvail t1);
          t2 = snd (serialDataAvail t1)
      in if a1 < 4
         then Thrown HeaderTimeoutError
                (s\<lparr>serial := t2, statics := (statics s)(F_getMessage := res[2 := 0, 3 := 0])\<rparr>)
         else
           (let res = res[0 := word_of_int (fst (serialGetchar t2))];
                t3 = snd (serialGetchar t2);
                res = res[1 := word_of_int (fst (serialGetchar t3))];
                t4 = snd (serialGetchar t3);
                res = res[2 := word_of_int (fst (serialGetchar t4))];
                t5 = snd (serialGetchar t4);
                res = res[3 := word_of_int (fst (serialGetchar t5))];
                t6 = snd (serialGetchar t5);
                t7 = busyWait 0 (uint (res ! 3) - 1) t6;
                a2 = fst (serialDataAvail t7);
                t8 = snd (serialDataAvail t7)
            in if a2 < uint (res ! 3) - 1
               then Thrown PayloadTimeoutError
                      (s\<lparr>serial := t8, statics := (statics s)(F_getMessage := res[2 := 0, 3 := 0])\<rparr>)
               else (case readContent 0 ((unat (res ! 3) + 2 ^ 32 - 1) mod 2 ^ 32) res t8 of
                       None \<Rightarrow> Undefined
                     | Some (res', t9) \<Rightarrow>
                         Returned () (s\<lparr>serial := t9, statics := (statics s)(F_getMessage := res')\<rparr>))))"

text \<open>
  \<open>checkMessage\<close>: \<open>||\<close> evaluates left to right and stops at the first true
  operand; the third operand reads \<open>buf[expectedSize+2]\<close> and calls \<open>checksum\<close>,
  and either may read outside the buffer (\<open>None\<close>). \<open>expectedSize\<close> is a \<open>size_t\<close>.
\<close>

definition checkMessage :: "Buffer \<Rightarrow> u8 \<Rightarrow> nat \<Rightarrow> bool option" where
  "checkMessage buf commandId expectedSize =
     (if unat (buf ! 3) \<noteq> expectedSize then Some False
      else if buf ! 4 \<noteq> commandId then Some False
      else if expectedSize + 2 < length buf
      then (case checksum buf of
              None \<Rightarrow> None
            | Some c \<Rightarrow> if buf ! (expectedSize + 2) \<noteq> c then Some False else Some True)
      else None)"

text \<open>
  \<open>genericRead(buf, replySize)\<close>: \<open>buf\<close> is a reference to the caller's static
  buffer, named here by its owner \<open>f\<close>. It returns (a reference to) the static \<open>res\<close>.
\<close>

definition genericRead :: "u8 \<Rightarrow> fn \<Rightarrow> u8 \<Rightarrow> state \<Rightarrow> Buffer outcome" where
  "genericRead servoId f replySize s =
     (let buf = (statics s f)[2 := servoId]
      in case checksum buf of
           None \<Rightarrow> Undefined
         | Some c \<Rightarrow>
             if unat (buf ! 3) + 2 < length buf
             then (let buf = buf[unat (buf ! 3) + 2 := c];
                       s1 = s\<lparr>statics := (statics s)(f := buf)\<rparr>
                   in case sendBuf buf (serialFlush (serial s1)) of
                        None \<Rightarrow> Undefined
                      | Some t \<Rightarrow>
                          (case getMessage (s1\<lparr>serial := t\<rparr>) of
                             Undefined \<Rightarrow> Undefined
                           | Thrown e s2 \<Rightarrow> Thrown e s2
                           | Returned u s2 \<Rightarrow>
                               (case checkMessage (statics s2 F_getMessage) (buf ! 4) (unat replySize) of
                                  None \<Rightarrow> Undefined
                                | Some ok \<Rightarrow>
                                    if \<not> ok then Thrown CorruptedMessageError s2
                                    else Returned (statics s2 F_getMessage) s2)))
             else Undefined)"


section \<open>The commands\<close>

text \<open>
  Parameters that share their name with a field of a result struct are abbreviated
  (\<open>pos\<close>, \<open>tm\<close>, \<open>minL\<close>, \<open>maxL\<close>, \<open>md\<close>, \<open>spd\<close>). \<open>std::max(a,b)\<close> is
  \<open>(a<b) ? b : a\<close> and \<open>std::min(a,b)\<close> is \<open>(b<a) ? b : a\<close>, signed on
  \<open>int16_t\<close> and unsigned on \<open>uint8_t\<close>.
\<close>

definition max_i16 :: "i16 \<Rightarrow> i16 \<Rightarrow> i16" where
  "max_i16 a b = (if sint a < sint b then b else a)"

definition min_i16 :: "i16 \<Rightarrow> i16 \<Rightarrow> i16" where
  "min_i16 a b = (if sint b < sint a then b else a)"

definition max_u8 :: "u8 \<Rightarrow> u8 \<Rightarrow> u8" where
  "max_u8 a b = (if a < b then b else a)"

definition min_u8 :: "u8 \<Rightarrow> u8 \<Rightarrow> u8" where
  "min_u8 a b = (if b < a then b else a)"

text \<open>
  The end of every write command: \<open>buf[k] = checksum(buf); sendBuf(buf);\<close> with the
  literal index \<open>k\<close> of that command, on the static buffer of the function \<open>f\<close>.
\<close>

definition finishWrite :: "fn \<Rightarrow> nat \<Rightarrow> Buffer \<Rightarrow> state \<Rightarrow> unit outcome" where
  "finishWrite f k buf s =
     (case checksum buf of
        None \<Rightarrow> Undefined
      | Some c \<Rightarrow>
          (case sendBuf (buf[k := c]) (serial s) of
             None \<Rightarrow> Undefined
           | Some t \<Rightarrow> Returned () (s\<lparr>serial := t, statics := (statics s)(f := buf[k := c])\<rparr>)))"

definition moveTimeWrite :: "u8 \<Rightarrow> i16 \<Rightarrow> u16 \<Rightarrow> state \<Rightarrow> unit outcome" where
  "moveTimeWrite servoId pos tm s =
     (let pos = (if sint pos < 0 then 0 else pos);
          pos = (if sint pos > 1000 then 1000 else pos);
          buf = statics s F_moveTimeWrite;
          buf = buf[2 := servoId];
          buf = buf[5 := getLowByte pos];
          buf = buf[6 := getHighByte pos];
          buf = buf[7 := getLowByte tm];
          buf = buf[8 := getHighByte tm]
      in finishWrite F_moveTimeWrite 9 buf s)"

definition moveTimeWaitWrite :: "u8 \<Rightarrow> i16 \<Rightarrow> u16 \<Rightarrow> state \<Rightarrow> unit outcome" where
  "moveTimeWaitWrite servoId pos tm s =
     (let pos = (if sint pos < 0 then 0 else pos);
          pos = (if sint pos > 1000 then 1000 else pos);
          buf = statics s F_moveTimeWaitWrite;
          buf = buf[2 := servoId];
          buf = buf[5 := getLowByte pos];
          buf = buf[6 := getHighByte pos];
          buf = buf[7 := getLowByte tm];
          buf = buf[8 := getHighByte tm]
      in finishWrite F_moveTimeWaitWrite 9 buf s)"

text \<open>\<open>moveStart\<close> and \<open>moveStop\<close> do not write \<open>buf[2]\<close>.\<close>

definition moveStart :: "u8 \<Rightarrow> state \<Rightarrow> unit outcome" where
  "moveStart servoId s = finishWrite F_moveStart 5 (statics s F_moveStart) s"

definition moveStop :: "u8 \<Rightarrow> state \<Rightarrow> unit outcome" where
  "moveStop servoId s = finishWrite F_moveStop 5 (statics s F_moveStop) s"

definition idWrite :: "u8 \<Rightarrow> u8 \<Rightarrow> state \<Rightarrow> unit outcome" where
  "idWrite servoId newId s =
     (let buf = statics s F_idWrite;
          buf = buf[2 := servoId];
          buf = buf[5 := newId]
      in finishWrite F_idWrite 6 buf s)"

definition angleOffsetAdjust :: "u8 \<Rightarrow> i8 \<Rightarrow> state \<Rightarrow> unit outcome" where
  "angleOffsetAdjust servoId angleDelta s =
     (let buf = statics s F_angleOffsetAdjust;
          buf = buf[2 := servoId];
          buf = buf[5 := angleDelta]
      in finishWrite F_angleOffsetAdjust 6 buf s)"

definition angleOffsetWrite :: "u8 \<Rightarrow> state \<Rightarrow> unit outcome" where
  "angleOffsetWrite servoId s =
     (let buf = statics s F_angleOffsetWrite;
          buf = buf[2 := servoId]
      in finishWrite F_angleOffsetWrite 5 buf s)"

text \<open>
  In \<open>static_cast<int16_t>(minLimit+1_int16)\<close> the sum is computed on \<open>int\<close> and
  converted back to 16 bits.
\<close>

definition angleLimitWrite :: "u8 \<Rightarrow> i16 \<Rightarrow> i16 \<Rightarrow> state \<Rightarrow> unit outcome" where
  "angleLimitWrite servoId minL maxL s =
     (let minL = max_i16 minL 0;
          minL = min_i16 minL 999;
          maxL = min_i16 maxL 1000;
          maxL = max_i16 maxL (word_of_int (sint minL + sint (1 :: i16)));
          buf = statics s F_angleLimitWrite;
          buf = buf[2 := servoId];
          buf = buf[5 := getLowByte minL];
          buf = buf[6 := getHighByte minL];
          buf = buf[7 := getLowByte maxL];
          buf = buf[8 := getHighByte maxL]
      in finishWrite F_angleLimitWrite 9 buf s)"

definition vinLimitWrite :: "u8 \<Rightarrow> i16 \<Rightarrow> i16 \<Rightarrow> state \<Rightarrow> unit outcome" where
  "vinLimitWrite servoId minL maxL s =
     (let minL = max_i16 minL 4500;
          minL = min_i16 minL 11999;
          maxL = min_i16 maxL 12000;
          maxL = max_i16 maxL (word_of_int (sint minL + sint (1 :: i16)));
          buf = statics s F_vinLimitWrite;
          buf = buf[2 := servoId];
          buf = buf[5 := getLowByte minL];
          buf = buf[6 := getHighByte minL];
          buf = buf[7 := getLowByte maxL];
          buf = buf[8 := getHighByte maxL]
      in finishWrite F_vinLimitWrite 9 buf s)"

definition tempMaxLimitWrite :: "u8 \<Rightarrow> u8 \<Rightarrow> state \<Rightarrow> unit outcome" where
  "tempMaxLimitWrite servoId maxTemp s =
     (let maxTemp = max_u8 maxTemp 50;
          maxTemp = min_u8 maxTemp 100;
          buf = statics s F_tempMaxLimitWrite;
          buf = buf[2 := servoId];
          buf = buf[5 := maxTemp]
      in finishWrite F_tempMaxLimitWrite 6 buf s)"

definition servoOrMotorModeWrite :: "u8 \<Rightarrow> Mode \<Rightarrow> i16 \<Rightarrow> state \<Rightarrow> unit outcome" where
  "servoOrMotorModeWrite servoId md spd s =
     (let spd = max_i16 spd (- 1000);
          spd = min_i16 spd 1000;
          buf = statics s F_servoOrMotorModeWrite;
          buf = buf[2 := servoId];
          buf = buf[5 := modeByte md];
          buf = buf[6 := 0];
          buf = buf[7 := getLowByte spd];
          buf = buf[8 := getHighByte spd]
      in finishWrite F_servoOrMotorModeWrite 9 buf s)"

definition loadOrUnloadWrite :: "u8 \<Rightarrow> LoadMode \<Rightarrow> state \<Rightarrow> unit outcome" where
  "loadOrUnloadWrite servoId loadMode s =
     (let buf = statics s F_loadOrUnloadWrite;
          buf = buf[2 := servoId];
          buf = buf[5 := loadModeByte loadMode]
      in finishWrite F_loadOrUnloadWrite 6 buf s)"

definition ledCtrlWrite :: "u8 \<Rightarrow> PowerLed \<Rightarrow> state \<Rightarrow> unit outcome" where
  "ledCtrlWrite servoId powerLed s =
     (let buf = statics s F_ledCtrlWrite;
          buf = buf[2 := servoId];
          buf = buf[5 := powerLedByte powerLed]
      in finishWrite F_ledCtrlWrite 6 buf s)"

definition ledErrorWrite :: "u8 \<Rightarrow> bool \<Rightarrow> bool \<Rightarrow> bool \<Rightarrow> state \<Rightarrow> unit outcome" where
  "ledErrorWrite servoId overTemp overVolt stl s =
     (let buf = statics s F_ledErrorWrite;
          buf = buf[2 := servoId];
          buf = buf[5 := word_of_int ((if overTemp then 1 else 0) + (if overVolt then 2 else 0)
                                        + (if stl then 4 else 0))]
      in finishWrite F_ledErrorWrite 6 buf s)"


subsection \<open>The read commands\<close>

text \<open>
  A 16-bit field of a reply is decoded as \<open>resultBuf[k]+(resultBuf[k+1]<<8)\<close>, on
  \<open>int\<close>, and converted to the 16-bit type of the result. A read command decodes the
  buffer that \<open>genericRead\<close> returns; an exception of \<open>genericRead\<close> passes through.
\<close>

definition lowHigh :: "u8 \<Rightarrow> u8 \<Rightarrow> int" where
  "lowHigh lo hi = uint lo + push_bit 8 (uint hi)"

fun decoded :: "(Buffer \<Rightarrow> 'a) \<Rightarrow> Buffer outcome \<Rightarrow> 'a outcome" where
  "decoded d (Returned r s) = Returned (d r) s"
| "decoded d (Thrown e s) = Thrown e s"
| "decoded d Undefined = Undefined"

definition moveTimeRead :: "u8 \<Rightarrow> state \<Rightarrow> MoveTime outcome" where
  "moveTimeRead servoId s =
     decoded (\<lambda>r. \<lparr>position = word_of_int (lowHigh (r ! 5) (r ! 6)), time = word_of_int (lowHigh (r ! 7) (r ! 8))\<rparr>)
       (genericRead servoId F_moveTimeRead 7 s)"

definition moveTimeWaitRead :: "u8 \<Rightarrow> state \<Rightarrow> MoveTime outcome" where
  "moveTimeWaitRead servoId s =
     decoded (\<lambda>r. \<lparr>position = word_of_int (lowHigh (r ! 5) (r ! 6)), time = word_of_int (lowHigh (r ! 7) (r ! 8))\<rparr>)
       (genericRead servoId F_moveTimeWaitRead 7 s)"

definition angleOffsetRead :: "u8 \<Rightarrow> state \<Rightarrow> i8 outcome" where
  "angleOffsetRead servoId s =
     decoded (\<lambda>r. r ! 5)
       (genericRead servoId F_angleOffsetRead 4 s)"

definition angleLimitRead :: "u8 \<Rightarrow> state \<Rightarrow> Limit outcome" where
  "angleLimitRead servoId s =
     decoded (\<lambda>r. \<lparr>minLimit = word_of_int (lowHigh (r ! 5) (r ! 6)), maxLimit = word_of_int (lowHigh (r ! 7) (r ! 8))\<rparr>)
       (genericRead servoId F_angleLimitRead 7 s)"

definition vinLimitRead :: "u8 \<Rightarrow> state \<Rightarrow> Limit outcome" where
  "vinLimitRead servoId s =
     decoded (\<lambda>r. \<lparr>minLimit = word_of_int (lowHigh (r ! 5) (r ! 6)), maxLimit = word_of_int (lowHigh (r ! 7) (r ! 8))\<rparr>)
       (genericRead servoId F_vinLimitRead 7 s)"

definition tempMaxLimitRead :: "u8 \<Rightarrow> state \<Rightarrow> u8 outcome" where
  "tempMaxLimitRead servoId s =
     decoded (\<lambda>r. r ! 5)
       (genericRead servoId F_tempMaxLimitRead 4 s)"

definition tempRead :: "u8 \<Rightarrow> state \<Rightarrow> u8 outcome" where
  "tempRead servoId s =
     decoded (\<lambda>r. r ! 5)
       (genericRead servoId F_tempRead 4 s)"

definition vinRead :: "u8 \<Rightarrow> state \<Rightarrow> u16 outcome" where
  "vinRead servoId s =
     decoded (\<lambda>r. word_of_int (lowHigh (r ! 5) (r ! 6)))
       (genericRead servoId F_vinRead 5 s)"

definition posRead :: "u8 \<Rightarrow> state \<Rightarrow> i16 outcome" where
  "posRead servoId s =
     decoded (\<lambda>r. word_of_int (lowHigh (r ! 5) (r ! 6)))
       (genericRead servoId F_posRead 5 s)"

definition servoOrMotorModeRead :: "u8 \<Rightarrow> state \<Rightarrow> ModeRead outcome" where
  "servoOrMotorModeRead servoId s =
     decoded (\<lambda>r. \<lparr>mode = Mode (r ! 5), speed = word_of_int (lowHigh (r ! 7) (r ! 8))\<rparr>)
       (genericRead servoId F_servoOrMotorModeRead 7 s)"

definition loadOrUnloadRead :: "u8 \<Rightarrow> state \<Rightarrow> LoadMode outcome" where
  "loadOrUnloadRead servoId s =
     decoded (\<lambda>r. LoadMode (r ! 5))
       (genericRead servoId F_loadOrUnloadRead 4 s)"

definition ledCtrlRead :: "u8 \<Rightarrow> state \<Rightarrow> PowerLed outcome" where
  "ledCtrlRead servoId s =
     decoded (\<lambda>r. PowerLed (r ! 5))
       (genericRead servoId F_ledCtrlRead 4 s)"

definition ledErrorRead :: "u8 \<Rightarrow> state \<Rightarrow> LedError outcome" where
  "ledErrorRead servoId s =
     decoded (\<lambda>r. \<lparr>overTemperature = (r ! 5 AND 1 \<noteq> 0), overVoltage = (r ! 5 AND 2 \<noteq> 0), stall = (r ! 5 AND 4 \<noteq> 0)\<rparr>)
       (genericRead servoId F_ledErrorRead 4 s)"

text \<open>
  \<open>idRead\<close> does not go through \<open>genericRead\<close>: it writes the address 254 itself and
  repeats the exchange inline.
\<close>

definition idRead :: "u8 \<Rightarrow> state \<Rightarrow> u8 outcome" where
  "idRead servoId s =
     (let buf = (statics s F_idRead)[2 := 254]
      in case checksum buf of
           None \<Rightarrow> Undefined
         | Some c \<Rightarrow>
             if unat (buf ! 3) + 2 < length buf
             then (let buf = buf[unat (buf ! 3) + 2 := c];
                       s1 = s\<lparr>statics := (statics s)(F_idRead := buf)\<rparr>
                   in case sendBuf buf (serialFlush (serial s1)) of
                        None \<Rightarrow> Undefined
                      | Some t \<Rightarrow>
                          (case getMessage (s1\<lparr>serial := t\<rparr>) of
                             Undefined \<Rightarrow> Undefined
                           | Thrown e s2 \<Rightarrow> Thrown e s2
                           | Returned u s2 \<Rightarrow>
                               (case checkMessage (statics s2 F_getMessage) (buf ! 4) 4 of
                                  None \<Rightarrow> Undefined
                                | Some ok \<Rightarrow>
                                    if \<not> ok then Thrown CorruptedMessageError s2
                                    else Returned (statics s2 F_getMessage ! 5) s2)))
             else Undefined)"

section \<open>Calls and histories\<close>

text \<open>
  A call is a member function with its arguments; \<open>invoke servoId c\<close> runs it on an
  object bound to \<open>servoId\<close>. A history is a list of such calls, by any objects: the
  caller may catch an exception and go on, so a history continues after a throw, and it
  has no meaning once the behaviour is undefined (\<open>None\<close>).
\<close>

datatype call =
    MoveTimeWrite i16 u16 | MoveTimeRead | MoveTimeWaitWrite i16 u16 | MoveTimeWaitRead
  | MoveStart | MoveStop | IdWrite u8 | IdRead
  | AngleOffsetAdjust i8 | AngleOffsetWrite | AngleOffsetRead
  | AngleLimitWrite i16 i16 | AngleLimitRead | VinLimitWrite i16 i16 | VinLimitRead
  | TempMaxLimitWrite u8 | TempMaxLimitRead | TempRead | VinRead | PosRead
  | ServoOrMotorModeWrite Mode i16 | ServoOrMotorModeRead
  | LoadOrUnloadWrite LoadMode | LoadOrUnloadRead
  | LedCtrlWrite PowerLed | LedCtrlRead | LedErrorWrite bool bool bool | LedErrorRead

datatype retval =
    VVoid | VMoveTime MoveTime | VByte u8 | VLimit Limit | VWord u16
  | VModeRead ModeRead | VLoadMode LoadMode | VPowerLed PowerLed | VLedError LedError

fun boxed :: "('a \<Rightarrow> retval) \<Rightarrow> 'a outcome \<Rightarrow> retval outcome" where
  "boxed k (Returned v s) = Returned (k v) s"
| "boxed k (Thrown e s) = Thrown e s"
| "boxed k Undefined = Undefined"

fun invoke :: "u8 \<Rightarrow> call \<Rightarrow> state \<Rightarrow> retval outcome" where
  "invoke a (MoveTimeWrite p t) s = boxed (\<lambda>u. VVoid) (moveTimeWrite a p t s)"
| "invoke a MoveTimeRead s = boxed VMoveTime (moveTimeRead a s)"
| "invoke a (MoveTimeWaitWrite p t) s = boxed (\<lambda>u. VVoid) (moveTimeWaitWrite a p t s)"
| "invoke a MoveTimeWaitRead s = boxed VMoveTime (moveTimeWaitRead a s)"
| "invoke a MoveStart s = boxed (\<lambda>u. VVoid) (moveStart a s)"
| "invoke a MoveStop s = boxed (\<lambda>u. VVoid) (moveStop a s)"
| "invoke a (IdWrite n) s = boxed (\<lambda>u. VVoid) (idWrite a n s)"
| "invoke a IdRead s = boxed VByte (idRead a s)"
| "invoke a (AngleOffsetAdjust d) s = boxed (\<lambda>u. VVoid) (angleOffsetAdjust a d s)"
| "invoke a AngleOffsetWrite s = boxed (\<lambda>u. VVoid) (angleOffsetWrite a s)"
| "invoke a AngleOffsetRead s = boxed VByte (angleOffsetRead a s)"
| "invoke a (AngleLimitWrite l h) s = boxed (\<lambda>u. VVoid) (angleLimitWrite a l h s)"
| "invoke a AngleLimitRead s = boxed VLimit (angleLimitRead a s)"
| "invoke a (VinLimitWrite l h) s = boxed (\<lambda>u. VVoid) (vinLimitWrite a l h s)"
| "invoke a VinLimitRead s = boxed VLimit (vinLimitRead a s)"
| "invoke a (TempMaxLimitWrite m) s = boxed (\<lambda>u. VVoid) (tempMaxLimitWrite a m s)"
| "invoke a TempMaxLimitRead s = boxed VByte (tempMaxLimitRead a s)"
| "invoke a TempRead s = boxed VByte (tempRead a s)"
| "invoke a VinRead s = boxed VWord (vinRead a s)"
| "invoke a PosRead s = boxed VWord (posRead a s)"
| "invoke a (ServoOrMotorModeWrite m v) s = boxed (\<lambda>u. VVoid) (servoOrMotorModeWrite a m v s)"
| "invoke a ServoOrMotorModeRead s = boxed VModeRead (servoOrMotorModeRead a s)"
| "invoke a (LoadOrUnloadWrite m) s = boxed (\<lambda>u. VVoid) (loadOrUnloadWrite a m s)"
| "invoke a LoadOrUnloadRead s = boxed VLoadMode (loadOrUnloadRead a s)"
| "invoke a (LedCtrlWrite p) s = boxed (\<lambda>u. VVoid) (ledCtrlWrite a p s)"
| "invoke a LedCtrlRead s = boxed VPowerLed (ledCtrlRead a s)"
| "invoke a (LedErrorWrite x y z) s = boxed (\<lambda>u. VVoid) (ledErrorWrite a x y z s)"
| "invoke a LedErrorRead s = boxed VLedError (ledErrorRead a s)"

fun after :: "'a outcome \<Rightarrow> state option" where
  "after (Returned v s) = Some s"
| "after (Thrown e s) = Some s"
| "after Undefined = None"

fun run :: "(u8 \<times> call) list \<Rightarrow> state \<Rightarrow> state option" where
  "run [] s = Some s"
| "run ((a, c) # h) s = (case after (invoke a c s) of None \<Rightarrow> None | Some s' \<Rightarrow> run h s')"

text \<open>
  The bytes a call puts on the line: what it appends to \<open>tx\<close>. \<open>None\<close> when the call
  has undefined behaviour.
\<close>

definition sent :: "u8 \<Rightarrow> call \<Rightarrow> state \<Rightarrow> u8 list option" where
  "sent a c s =
     (case after (invoke a c s) of
        None \<Rightarrow> None
      | Some s' \<Rightarrow> Some (drop (length (tx (serial s))) (tx (serial s'))))"


section \<open>The protocol in the words of the specification\<close>

text \<open>
  The definitions of this section are not translated from the code. They state the wire
  format as the specification words it, and the request of every call as a pure function
  of the bound address and the arguments, with the clamping written on unbounded
  integers. The theorems below compare the code with them: \<open>request a c\<close> is what the
  code puts on the line for the call \<open>c\<close> (lemma \<open>invoke_sent\<close>).

  \<open>spec_checksum\<close>: \<open>checksum = (~sum(address..lastPayloadByte)) & 0xFF\<close>, the sum
  and the complement taken on unbounded integers.
\<close>

definition spec_checksum :: "u8 list \<Rightarrow> u8" where
  "spec_checksum bytes = word_of_int (and (not (sum_list (map uint bytes))) 0xFF)"

text \<open>
  \<open>encode\<close>:
  \<open>[0x55][0x55][address][length][commandId][payload][checksum]\<close> with
  \<open>length = 3 + payloadByteCount\<close>.
\<close>

definition encode :: "u8 \<Rightarrow> u8 \<Rightarrow> u8 list \<Rightarrow> u8 list" where
  "encode address commandId payload =
     [0x55, 0x55] @ [address, word_of_nat (3 + length payload), commandId] @ payload
       @ [spec_checksum ([address, word_of_nat (3 + length payload), commandId] @ payload)]"

definition clamp :: "int \<Rightarrow> int \<Rightarrow> int \<Rightarrow> int" where
  "clamp lo hi x = max lo (min hi x)"

text \<open>A 16-bit field, low byte first.\<close>

definition le16 :: "16 word \<Rightarrow> u8 list" where
  "le16 w = [word_of_int (uint w mod 256), word_of_int (uint w div 256)]"

definition commandId :: "call \<Rightarrow> u8" where
  "commandId c =
     (case c of
        MoveTimeWrite p t \<Rightarrow> 1 | MoveTimeRead \<Rightarrow> 2
      | MoveTimeWaitWrite p t \<Rightarrow> 7 | MoveTimeWaitRead \<Rightarrow> 8
      | MoveStart \<Rightarrow> 11 | MoveStop \<Rightarrow> 12
      | IdWrite n \<Rightarrow> 13 | IdRead \<Rightarrow> 14
      | AngleOffsetAdjust d \<Rightarrow> 17 | AngleOffsetWrite \<Rightarrow> 18 | AngleOffsetRead \<Rightarrow> 19
      | AngleLimitWrite l h \<Rightarrow> 20 | AngleLimitRead \<Rightarrow> 21
      | VinLimitWrite l h \<Rightarrow> 22 | VinLimitRead \<Rightarrow> 23
      | TempMaxLimitWrite m \<Rightarrow> 24 | TempMaxLimitRead \<Rightarrow> 25
      | TempRead \<Rightarrow> 26 | VinRead \<Rightarrow> 27 | PosRead \<Rightarrow> 28
      | ServoOrMotorModeWrite m v \<Rightarrow> 29 | ServoOrMotorModeRead \<Rightarrow> 30
      | LoadOrUnloadWrite m \<Rightarrow> 31 | LoadOrUnloadRead \<Rightarrow> 32
      | LedCtrlWrite p \<Rightarrow> 33 | LedCtrlRead \<Rightarrow> 34
      | LedErrorWrite x y z \<Rightarrow> 35 | LedErrorRead \<Rightarrow> 36)"

text \<open>
  The request payload of a call after clamping. A read has none. The speed of a mode
  write is clamped and encoded whatever the mode is.
\<close>

definition payload :: "call \<Rightarrow> u8 list" where
  "payload c =
     (case c of
        MoveTimeWrite p t \<Rightarrow> le16 (word_of_int (clamp 0 1000 (sint p))) @ le16 t
      | MoveTimeWaitWrite p t \<Rightarrow> le16 (word_of_int (clamp 0 1000 (sint p))) @ le16 t
      | IdWrite n \<Rightarrow> [n]
      | AngleOffsetAdjust d \<Rightarrow> [d]
      | AngleLimitWrite l h \<Rightarrow>
          le16 (word_of_int (clamp 0 999 (sint l)))
            @ le16 (word_of_int (max (clamp 0 999 (sint l) + 1) (min 1000 (sint h))))
      | VinLimitWrite l h \<Rightarrow>
          le16 (word_of_int (clamp 4500 11999 (sint l)))
            @ le16 (word_of_int (max (clamp 4500 11999 (sint l) + 1) (min 12000 (sint h))))
      | TempMaxLimitWrite m \<Rightarrow> [word_of_int (clamp 50 100 (uint m))]
      | ServoOrMotorModeWrite m v \<Rightarrow>
          [modeByte m, 0] @ le16 (word_of_int (clamp (- 1000) 1000 (sint v)))
      | LoadOrUnloadWrite m \<Rightarrow> [loadModeByte m]
      | LedCtrlWrite p \<Rightarrow> [powerLedByte p]
      | LedErrorWrite x y z \<Rightarrow>
          [(if x then 1 else 0) OR (if y then 2 else 0) OR (if z then 4 else 0)]
      | _ \<Rightarrow> [])"

text \<open>
  The address a request carries: the bound address, but broadcast for the address read,
  and the placeholder 0 for \<open>moveStart\<close> and \<open>moveStop\<close>, which never write the
  address byte.
\<close>

definition target :: "u8 \<Rightarrow> call \<Rightarrow> u8" where
  "target a c = (case c of IdRead \<Rightarrow> 254 | MoveStart \<Rightarrow> 0 | MoveStop \<Rightarrow> 0 | _ \<Rightarrow> a)"

definition request :: "u8 \<Rightarrow> call \<Rightarrow> u8 list" where
  "request a c = encode (target a c) (commandId c) (payload c)"

definition isRead :: "call \<Rightarrow> bool" where
  "isRead c =
     (case c of
        MoveTimeRead \<Rightarrow> True | MoveTimeWaitRead \<Rightarrow> True | IdRead \<Rightarrow> True
      | AngleOffsetRead \<Rightarrow> True | AngleLimitRead \<Rightarrow> True | VinLimitRead \<Rightarrow> True
      | TempMaxLimitRead \<Rightarrow> True | TempRead \<Rightarrow> True | VinRead \<Rightarrow> True
      | PosRead \<Rightarrow> True | ServoOrMotorModeRead \<Rightarrow> True | LoadOrUnloadRead \<Rightarrow> True
      | LedCtrlRead \<Rightarrow> True | LedErrorRead \<Rightarrow> True
      | _ \<Rightarrow> False)"

section \<open>The invariant of the static request buffers\<close>

text \<open>
  No command writes the header bytes, the length byte or the command byte of its static
  buffer, and \<open>moveStart\<close> and \<open>moveStop\<close> do not write the address byte either.
\<close>

definition fixedIdx :: "fn \<Rightarrow> nat list" where
  "fixedIdx f =
     (if f = F_getMessage then []
      else if f = F_moveStart \<or> f = F_moveStop then [0, 1, 2, 3, 4]
      else [0, 1, 3, 4])"

definition intact :: "state \<Rightarrow> bool" where
  "intact s =
     (\<forall>f. length (statics s f) = 10 \<and> list_all (\<lambda>i. statics s f ! i = initial f ! i) (fixedIdx f))"

section \<open>Lines: starvation, and the lines of the examples\<close>

text \<open>A line on which nothing ever arrives.\<close>

definition quiet :: Serial where
  "quiet = \<lparr>availScript = (\<lambda>n. 0), polls = 0, rxScript = (\<lambda>n. - 1), gets = 0, tx = [],
             flushes = 0\<rparr>"


text \<open>
  \<open>starvedFor n t\<close>: the line \<open>t\<close> answers fewer than 4 to each of the next \<open>n\<close> calls
  of \<open>serialDataAvail\<close>.
\<close>

definition starvedFor :: "nat \<Rightarrow> Serial \<Rightarrow> bool" where
  "starvedFor n t = (\<forall>j<n. availScript t (polls t + j) < 4)"

text \<open>
  A line on which the reply of a servo with id 7 to the address read,
  55 55 07 04 0E 07 DF, arrives late: \<open>serialDataAvail\<close> answers 0 to the first
  \<open>MaxBusyLoop\<close> calls, 7 to the next one and, the four header bytes being read by then,
  3 afterwards.
\<close>

definition late :: Serial where
  "late = \<lparr>availScript = (\<lambda>n. if n < MaxBusyLoop then 0 else if n = MaxBusyLoop then 7 else 3),
            polls = 0,
            rxScript = (\<lambda>n. if n < 7 then [0x55, 0x55, 0x07, 0x04, 0x0E, 0x07, 0xDF] ! n else - 1),
            gets = 0, tx = [], flushes = 0\<rparr>"

text \<open>
  A line on which the reply of servo 1 to the LED control read, 55 55 01 04 22 b ck, is
  there at once; its payload byte is \<open>b\<close> and its checksum is the complement of
  01+04+22+b. \<open>serialDataAvail\<close> answers 7 to the two polls before the header is read
  and 3 afterwards.
\<close>

definition ledReply :: "u8 \<Rightarrow> Serial" where
  "ledReply b = \<lparr>availScript = (\<lambda>n. if n < 2 then 7 else 3),
            polls = 0,
            rxScript = (\<lambda>n. if n < 7
                             then [0x55, 0x55, 0x01, 0x04, 0x22, uint b,
                                   uint (NOT (0x01 + 0x04 + 0x22 + b))] ! n
                             else - 1),
            gets = 0, tx = [], flushes = 0\<rparr>"

section \<open>The loops of the codec in closed form\<close>

lemma checksum_loop_eq:
  "n \<le> length buf \<Longrightarrow> i \<le> n \<Longrightarrow>
   checksum_loop buf i n temp = Some (temp + word_of_int (sum_list (map uint (take (n - i) (drop i buf)))))"
proof (induction buf i n temp rule: checksum_loop.induct)
  case (1 buf i n temp)
  show ?case
  proof (cases "i < n")
    case True
    then have il: "i < length buf" using 1(2) by simp
    have a: "n - i = Suc (n - Suc i)" using True by simp
    have b: "drop i buf = buf ! i # drop (Suc i) buf" using il by (simp add: Cons_nth_drop_Suc)
    have "take (n - i) (drop i buf) = buf ! i # take (n - Suc i) (drop (Suc i) buf)"
      by (simp only: a b take_Suc_Cons)
    moreover have "(ucast (buf ! i) :: u16) = word_of_int (uint (buf ! i))" by (rule ucast_eq)
    moreover have "checksum_loop buf (Suc i) n (temp + ucast (buf ! i)) =
       Some (temp + ucast (buf ! i) + word_of_int (sum_list (map uint (take (n - Suc i) (drop (Suc i) buf)))))"
      using 1 True il by simp
    ultimately show ?thesis using True il by (subst checksum_loop.simps) (simp add: add.assoc)
  next
    case False
    with 1 show ?thesis by (subst checksum_loop.simps) simp
  qed
qed

lemma sendBuf_loop_eq:
  "n \<le> length buf \<Longrightarrow> i \<le> n \<Longrightarrow>
   sendBuf_loop buf i n t = Some (t\<lparr>tx := tx t @ take (n - i) (drop i buf)\<rparr>)"
proof (induction buf i n t rule: sendBuf_loop.induct)
  case (1 buf i n t)
  show ?case
  proof (cases "i < n")
    case True
    then have il: "i < length buf" using 1(2) by simp
    have a: "n - i = Suc (n - Suc i)" using True by simp
    have b: "drop i buf = buf ! i # drop (Suc i) buf" using il by (simp add: Cons_nth_drop_Suc)
    have "take (n - i) (drop i buf) = buf ! i # take (n - Suc i) (drop (Suc i) buf)"
      by (simp only: a b take_Suc_Cons)
    with 1 True il show ?thesis by (subst sendBuf_loop.simps) (simp add: serialPutchar_def)
  next
    case False
    with 1 show ?thesis by (subst sendBuf_loop.simps) simp
  qed
qed

lemma low_not: "getLowByte (NOT (word_of_int x)) = word_of_int (and (not x) 0xFF)"
proof -
  have m: "(0xFF::int) = mask 8" by (simp add: mask_eq_exp_minus_1)
  show ?thesis
    unfolding getLowByte_def m
    by (rule bit_word_eqI) (auto simp add: bit_simps)
qed

lemma checksum_eq:
  "unat (buf ! 3) + 2 \<le> length buf \<Longrightarrow>
   checksum buf = Some (spec_checksum (take (unat (buf ! 3)) (drop 2 buf)))"
  by (simp add: checksum_def checksum_loop_eq spec_checksum_def low_not)

lemma sendBuf_eq:
  "unat (buf ! 3) + 3 \<le> length buf \<Longrightarrow>
   sendBuf buf t = Some (t\<lparr>tx := tx t @ take (unat (buf ! 3) + 3) buf\<rparr>)"
  by (simp add: sendBuf_def sendBuf_loop_eq)

lemma finishWrite_eq:
  assumes "length buf = 10" and "3 \<le> unat (buf ! 3)" and "unat (buf ! 3) \<le> 7"
    and "k = unat (buf ! 3) + 2"
  shows "finishWrite f k buf s =
    Returned () (s\<lparr>serial := (serial s)\<lparr>tx := tx (serial s) @
        take (unat (buf ! 3) + 3) (buf[k := spec_checksum (take (unat (buf ! 3)) (drop 2 buf))])\<rparr>,
      statics := (statics s)(f := buf[k := spec_checksum (take (unat (buf ! 3)) (drop 2 buf))])\<rparr>)"
proof -
  let ?c = "spec_checksum (take (unat (buf ! 3)) (drop 2 buf))"
  have c: "checksum buf = Some ?c" using assms by (simp add: checksum_eq)
  have k3: "(buf[k := ?c]) ! 3 = buf ! 3" using assms by simp
  have "sendBuf (buf[k := ?c]) (serial s) =
      Some ((serial s)\<lparr>tx := tx (serial s) @ take (unat (buf ! 3) + 3) (buf[k := ?c])\<rparr>)"
    using assms by (subst sendBuf_eq) (simp_all add: k3)
  with c show ?thesis by (simp add: finishWrite_def)
qed

lemma ten:
  assumes "length (buf :: u8 list) = 10"
  obtains b0 b1 b2 b3 b4 b5 b6 b7 b8 b9 where "buf = [b0, b1, b2, b3, b4, b5, b6, b7, b8, b9]"
  using assms by (auto simp add: eval_nat_numeral length_Suc_conv)

lemma low_le16: "getLowByte w = word_of_int (uint w mod 256)"
  unfolding getLowByte_def
  by (rule bit_word_eqI) (auto simp add: bit_simps simp flip: take_bit_eq_mod [of 8, simplified])

lemma high_le16: "getHighByte w = word_of_int (uint w div 256)"
  unfolding getHighByte_def
  by (rule bit_word_eqI) (auto simp add: bit_simps simp flip: drop_bit_eq_div [of 8, simplified])


lemma upds:
  "[b0, b1, b2, b3, b4, b5, b6, b7, b8, b9][2 := x] = [b0, b1, x, b3, b4, b5, b6, b7, b8, b9]"
  "[b0, b1, b2, b3, b4, b5, b6, b7, b8, b9][5 := x] = [b0, b1, b2, b3, b4, x, b6, b7, b8, b9]"
  "[b0, b1, b2, b3, b4, b5, b6, b7, b8, b9][6 := x] = [b0, b1, b2, b3, b4, b5, x, b7, b8, b9]"
  "[b0, b1, b2, b3, b4, b5, b6, b7, b8, b9][7 := x] = [b0, b1, b2, b3, b4, b5, b6, x, b8, b9]"
  "[b0, b1, b2, b3, b4, b5, b6, b7, b8, b9][8 := x] = [b0, b1, b2, b3, b4, b5, b6, b7, x, b9]"
  "[b0, b1, b2, b3, b4, b5, b6, b7, b8, b9][9 := x] = [b0, b1, b2, b3, b4, b5, b6, b7, b8, x]"
  by (simp_all add: eval_nat_numeral)

lemma initial_head:
  "f \<noteq> F_getMessage \<Longrightarrow> initial f ! 0 = 0x55 \<and> initial f ! 1 = 0x55"
  by (cases f) (simp_all add: template_def FrameHeader_def)

lemma intact_buf:
  assumes "intact s" and "f \<noteq> F_getMessage"
  obtains b2 b5 b6 b7 b8 b9 where
    "statics s f = [0x55, 0x55, b2, initial f ! 3, initial f ! 4, b5, b6, b7, b8, b9]"
proof -
  from assms(1) have len: "length (statics s f) = 10"
    and fx: "list_all (\<lambda>i. statics s f ! i = initial f ! i) (fixedIdx f)"
    by (simp_all add: intact_def)
  from len obtain b0 b1 b2 b3 b4 b5 b6 b7 b8 b9
    where B: "statics s f = [b0, b1, b2, b3, b4, b5, b6, b7, b8, b9]" by (rule ten)
  from fx assms(2) initial_head [OF assms(2)]
  have "b0 = 0x55" "b1 = 0x55" "b3 = initial f ! 3" "b4 = initial f ! 4"
    by (auto simp add: fixedIdx_def B split: if_splits)
  with B that show ?thesis by blast
qed

lemma intact_upd:
  assumes "intact s" and "length b = 10"
    and "list_all (\<lambda>i. b ! i = initial f ! i) (fixedIdx f)"
  shows "intact (s\<lparr>serial := t, statics := (statics s)(f := b)\<rparr>)"
  using assms by (simp add: intact_def)

lemma clamp_pos:
  "(if sint (if sint p < 0 then 0 else p) > 1000 then 1000 else (if sint p < 0 then 0 else p))
     = (word_of_int (clamp 0 1000 (sint p)) :: i16)"
  by (auto simp add: clamp_def)

lemma le16_eq: "[getLowByte w, getHighByte w] = le16 w"
  by (simp add: le16_def low_le16 high_le16)

lemma intact_updI:
  "intact s \<Longrightarrow> length b = 10 \<and> list_all (\<lambda>i. b ! i = initial f ! i) (fixedIdx f) \<Longrightarrow>
   intact (s\<lparr>serial := t, statics := (statics s)(f := b)\<rparr>) = True"
  by (simp add: intact_def)

lemmas spec_defs = request_def encode_def payload_def target_def commandId_def le16_def
  low_le16 high_le16 fixedIdx_def template_def FrameHeader_def pholder_def

lemma sint_small:
  "- 32768 \<le> x \<Longrightarrow> x < 32768 \<Longrightarrow> sint (word_of_int x :: 16 word) = x"
  by (simp add: signed_of_int signed_take_bit_int_eq_self)

lemma sint_max_i16: "sint (max_i16 a b) = max (sint a) (sint b)"
  by (simp add: max_i16_def max_def)

lemma sint_min_i16: "sint (min_i16 a b) = min (sint a) (sint b)"
  by (simp add: min_i16_def min_def)

lemma word_eq_sintI: "sint (x :: i16) = e \<Longrightarrow> x = word_of_int e"
  by auto

lemma clamp_angle_min:
  "min_i16 (max_i16 l 0) 999 = word_of_int (clamp 0 999 (sint l))"
  by (rule word_eq_sintI) (simp add: sint_max_i16 sint_min_i16 clamp_def min.commute max.commute)

lemma clamp_vin_min:
  "min_i16 (max_i16 l 4500) 11999 = word_of_int (clamp 4500 11999 (sint l))"
  by (rule word_eq_sintI) (simp add: sint_max_i16 sint_min_i16 clamp_def min.commute max.commute)

lemma clamp_speed:
  "min_i16 (max_i16 v (- 1000)) 1000 = word_of_int (clamp (- 1000) 1000 (sint v))"
  by (rule word_eq_sintI) (simp add: sint_max_i16 sint_min_i16 clamp_def min.commute max.commute)

lemma clamp_limit_max:
  assumes "0 \<le> lo" and "lo \<le> hi" and "hi < 32767"
  shows "max_i16 (min_i16 h tp) (word_of_int (sint (word_of_int (clamp lo hi x) :: i16) + sint (1 :: i16)))
     = word_of_int (max (clamp lo hi x + 1) (min (sint tp) (sint h)))"
proof -
  have r: "- 32768 \<le> clamp lo hi x" "clamp lo hi x < 32767"
    using assms by (auto simp add: clamp_def)
  have c: "sint (word_of_int (clamp lo hi x) :: i16) = clamp lo hi x"
    using r by (intro sint_small) simp_all
  have d: "sint (word_of_int (clamp lo hi x + sint (1 :: i16)) :: i16) = clamp lo hi x + 1"
    using r by (subst sint_small) simp_all
  show ?thesis
    by (rule word_eq_sintI) (simp only: sint_max_i16 sint_min_i16 c d min.commute max.commute)
qed

lemma clamp_angle_max:
  "max_i16 (min_i16 h 1000) (word_of_int (sint (word_of_int (clamp 0 999 x) :: i16) + sint (1 :: i16)))
     = word_of_int (max (clamp 0 999 x + 1) (min 1000 (sint h)))"
  using clamp_limit_max [of 0 999 h 1000 x] by simp

lemma clamp_vin_max:
  "max_i16 (min_i16 h 12000) (word_of_int (sint (word_of_int (clamp 4500 11999 x) :: i16) + sint (1 :: i16)))
     = word_of_int (max (clamp 4500 11999 x + 1) (min 12000 (sint h)))"
  using clamp_limit_max [of 4500 11999 h 12000 x] by simp

lemma clamp_temp:
  "min_u8 (max_u8 m 50) 100 = word_of_int (clamp 50 100 (uint m))"
  by (auto simp add: clamp_def min_u8_def max_u8_def word_less_def)

lemma led_bits:
  "(word_of_int ((if x then 1 else 0) + (if y then 2 else 0) + (if z then 4 else 0)) :: u8)
     = (if x then 1 else 0) OR (if y then 2 else 0) OR (if z then 4 else 0)"
  by simp

lemma intact_buf0:
  assumes "intact s" and "f = F_moveStart \<or> f = F_moveStop"
  obtains b5 b6 b7 b8 b9 where
    "statics s f = [0x55, 0x55, 0, initial f ! 3, initial f ! 4, b5, b6, b7, b8, b9]"
proof -
  from assms(1) have len: "length (statics s f) = 10"
    and fx: "list_all (\<lambda>i. statics s f ! i = initial f ! i) (fixedIdx f)"
    by (simp_all add: intact_def)
  from len obtain b0 b1 b2 b3 b4 b5 b6 b7 b8 b9
    where B: "statics s f = [b0, b1, b2, b3, b4, b5, b6, b7, b8, b9]" by (rule ten)
  from fx assms(2)
  have "b0 = 0x55" "b1 = 0x55" "b2 = 0" "b3 = initial f ! 3" "b4 = initial f ! 4"
    by (auto simp add: fixedIdx_def B template_def FrameHeader_def pholder_def)
  with B that show ?thesis by blast
qed

lemma w_moveTimeWrite:
  assumes "intact s"
  shows "\<exists>s'. moveTimeWrite a p t s = Returned () s'
     \<and> serial s' = (serial s)\<lparr>tx := tx (serial s) @ request a (MoveTimeWrite p t)\<rparr> \<and> intact s'"
proof -
  from assms obtain b2 b5 b6 b7 b8 b9 where
    B: "statics s F_moveTimeWrite = [0x55, 0x55, b2, 7, 1, b5, b6, b7, b8, b9]"
    by (rule intact_buf [where f = F_moveTimeWrite]) (simp_all add: template_def)
  show ?thesis
    unfolding moveTimeWrite_def Let_def clamp_pos B upds
    by (subst finishWrite_eq) (simp_all add: upds spec_defs intact_updI [OF assms])
qed

lemma w_moveTimeWaitWrite:
  assumes "intact s"
  shows "\<exists>s'. moveTimeWaitWrite a p t s = Returned () s'
     \<and> serial s' = (serial s)\<lparr>tx := tx (serial s) @ request a (MoveTimeWaitWrite p t)\<rparr> \<and> intact s'"
proof -
  from assms obtain b2 b5 b6 b7 b8 b9 where
    B: "statics s F_moveTimeWaitWrite = [0x55, 0x55, b2, 7, 7, b5, b6, b7, b8, b9]"
    by (rule intact_buf [where f = F_moveTimeWaitWrite]) (simp_all add: template_def)
  show ?thesis
    unfolding moveTimeWaitWrite_def Let_def clamp_pos B upds
    by (subst finishWrite_eq) (simp_all add: upds spec_defs intact_updI [OF assms])
qed

lemma w_moveStart:
  assumes "intact s"
  shows "\<exists>s'. moveStart a s = Returned () s'
     \<and> serial s' = (serial s)\<lparr>tx := tx (serial s) @ request a (MoveStart)\<rparr> \<and> intact s'"
proof -
  from assms obtain b5 b6 b7 b8 b9 where
    B: "statics s F_moveStart = [0x55, 0x55, 0, 3, 11, b5, b6, b7, b8, b9]"
    by (rule intact_buf0 [where f = F_moveStart]) (simp_all add: template_def)
  show ?thesis
    unfolding moveStart_def Let_def  B upds
    by (subst finishWrite_eq) (simp_all add: upds spec_defs intact_updI [OF assms])
qed

lemma w_moveStop:
  assumes "intact s"
  shows "\<exists>s'. moveStop a s = Returned () s'
     \<and> serial s' = (serial s)\<lparr>tx := tx (serial s) @ request a (MoveStop)\<rparr> \<and> intact s'"
proof -
  from assms obtain b5 b6 b7 b8 b9 where
    B: "statics s F_moveStop = [0x55, 0x55, 0, 3, 12, b5, b6, b7, b8, b9]"
    by (rule intact_buf0 [where f = F_moveStop]) (simp_all add: template_def)
  show ?thesis
    unfolding moveStop_def Let_def  B upds
    by (subst finishWrite_eq) (simp_all add: upds spec_defs intact_updI [OF assms])
qed

lemma w_idWrite:
  assumes "intact s"
  shows "\<exists>s'. idWrite a n s = Returned () s'
     \<and> serial s' = (serial s)\<lparr>tx := tx (serial s) @ request a (IdWrite n)\<rparr> \<and> intact s'"
proof -
  from assms obtain b2 b5 b6 b7 b8 b9 where
    B: "statics s F_idWrite = [0x55, 0x55, b2, 4, 13, b5, b6, b7, b8, b9]"
    by (rule intact_buf [where f = F_idWrite]) (simp_all add: template_def)
  show ?thesis
    unfolding idWrite_def Let_def  B upds
    by (subst finishWrite_eq) (simp_all add: upds spec_defs intact_updI [OF assms])
qed

lemma w_angleOffsetAdjust:
  assumes "intact s"
  shows "\<exists>s'. angleOffsetAdjust a d s = Returned () s'
     \<and> serial s' = (serial s)\<lparr>tx := tx (serial s) @ request a (AngleOffsetAdjust d)\<rparr> \<and> intact s'"
proof -
  from assms obtain b2 b5 b6 b7 b8 b9 where
    B: "statics s F_angleOffsetAdjust = [0x55, 0x55, b2, 4, 17, b5, b6, b7, b8, b9]"
    by (rule intact_buf [where f = F_angleOffsetAdjust]) (simp_all add: template_def)
  show ?thesis
    unfolding angleOffsetAdjust_def Let_def  B upds
    by (subst finishWrite_eq) (simp_all add: upds spec_defs intact_updI [OF assms])
qed

lemma w_angleOffsetWrite:
  assumes "intact s"
  shows "\<exists>s'. angleOffsetWrite a s = Returned () s'
     \<and> serial s' = (serial s)\<lparr>tx := tx (serial s) @ request a (AngleOffsetWrite)\<rparr> \<and> intact s'"
proof -
  from assms obtain b2 b5 b6 b7 b8 b9 where
    B: "statics s F_angleOffsetWrite = [0x55, 0x55, b2, 3, 18, b5, b6, b7, b8, b9]"
    by (rule intact_buf [where f = F_angleOffsetWrite]) (simp_all add: template_def)
  show ?thesis
    unfolding angleOffsetWrite_def Let_def  B upds
    by (subst finishWrite_eq) (simp_all add: upds spec_defs intact_updI [OF assms])
qed

lemma w_angleLimitWrite:
  assumes "intact s"
  shows "\<exists>s'. angleLimitWrite a l h s = Returned () s'
     \<and> serial s' = (serial s)\<lparr>tx := tx (serial s) @ request a (AngleLimitWrite l h)\<rparr> \<and> intact s'"
proof -
  from assms obtain b2 b5 b6 b7 b8 b9 where
    B: "statics s F_angleLimitWrite = [0x55, 0x55, b2, 7, 20, b5, b6, b7, b8, b9]"
    by (rule intact_buf [where f = F_angleLimitWrite]) (simp_all add: template_def)
  show ?thesis
    unfolding angleLimitWrite_def Let_def clamp_angle_min clamp_angle_max B upds
    by (subst finishWrite_eq) (simp_all add: upds spec_defs intact_updI [OF assms])
qed

lemma w_vinLimitWrite:
  assumes "intact s"
  shows "\<exists>s'. vinLimitWrite a l h s = Returned () s'
     \<and> serial s' = (serial s)\<lparr>tx := tx (serial s) @ request a (VinLimitWrite l h)\<rparr> \<and> intact s'"
proof -
  from assms obtain b2 b5 b6 b7 b8 b9 where
    B: "statics s F_vinLimitWrite = [0x55, 0x55, b2, 7, 22, b5, b6, b7, b8, b9]"
    by (rule intact_buf [where f = F_vinLimitWrite]) (simp_all add: template_def)
  show ?thesis
    unfolding vinLimitWrite_def Let_def clamp_vin_min clamp_vin_max B upds
    by (subst finishWrite_eq) (simp_all add: upds spec_defs intact_updI [OF assms])
qed

lemma w_tempMaxLimitWrite:
  assumes "intact s"
  shows "\<exists>s'. tempMaxLimitWrite a m s = Returned () s'
     \<and> serial s' = (serial s)\<lparr>tx := tx (serial s) @ request a (TempMaxLimitWrite m)\<rparr> \<and> intact s'"
proof -
  from assms obtain b2 b5 b6 b7 b8 b9 where
    B: "statics s F_tempMaxLimitWrite = [0x55, 0x55, b2, 4, 24, b5, b6, b7, b8, b9]"
    by (rule intact_buf [where f = F_tempMaxLimitWrite]) (simp_all add: template_def)
  show ?thesis
    unfolding tempMaxLimitWrite_def Let_def clamp_temp B upds
    by (subst finishWrite_eq) (simp_all add: upds spec_defs intact_updI [OF assms])
qed

lemma w_servoOrMotorModeWrite:
  assumes "intact s"
  shows "\<exists>s'. servoOrMotorModeWrite a m v s = Returned () s'
     \<and> serial s' = (serial s)\<lparr>tx := tx (serial s) @ request a (ServoOrMotorModeWrite m v)\<rparr> \<and> intact s'"
proof -
  from assms obtain b2 b5 b6 b7 b8 b9 where
    B: "statics s F_servoOrMotorModeWrite = [0x55, 0x55, b2, 7, 29, b5, b6, b7, b8, b9]"
    by (rule intact_buf [where f = F_servoOrMotorModeWrite]) (simp_all add: template_def)
  show ?thesis
    unfolding servoOrMotorModeWrite_def Let_def clamp_speed B upds
    by (subst finishWrite_eq) (simp_all add: upds spec_defs intact_updI [OF assms])
qed

lemma w_loadOrUnloadWrite:
  assumes "intact s"
  shows "\<exists>s'. loadOrUnloadWrite a m s = Returned () s'
     \<and> serial s' = (serial s)\<lparr>tx := tx (serial s) @ request a (LoadOrUnloadWrite m)\<rparr> \<and> intact s'"
proof -
  from assms obtain b2 b5 b6 b7 b8 b9 where
    B: "statics s F_loadOrUnloadWrite = [0x55, 0x55, b2, 4, 31, b5, b6, b7, b8, b9]"
    by (rule intact_buf [where f = F_loadOrUnloadWrite]) (simp_all add: template_def)
  show ?thesis
    unfolding loadOrUnloadWrite_def Let_def  B upds
    by (subst finishWrite_eq) (simp_all add: upds spec_defs intact_updI [OF assms])
qed

lemma w_ledCtrlWrite:
  assumes "intact s"
  shows "\<exists>s'. ledCtrlWrite a p s = Returned () s'
     \<and> serial s' = (serial s)\<lparr>tx := tx (serial s) @ request a (LedCtrlWrite p)\<rparr> \<and> intact s'"
proof -
  from assms obtain b2 b5 b6 b7 b8 b9 where
    B: "statics s F_ledCtrlWrite = [0x55, 0x55, b2, 4, 33, b5, b6, b7, b8, b9]"
    by (rule intact_buf [where f = F_ledCtrlWrite]) (simp_all add: template_def)
  show ?thesis
    unfolding ledCtrlWrite_def Let_def  B upds
    by (subst finishWrite_eq) (simp_all add: upds spec_defs intact_updI [OF assms])
qed

lemma w_ledErrorWrite:
  assumes "intact s"
  shows "\<exists>s'. ledErrorWrite a x y z s = Returned () s'
     \<and> serial s' = (serial s)\<lparr>tx := tx (serial s) @ request a (LedErrorWrite x y z)\<rparr> \<and> intact s'"
proof -
  from assms obtain b2 b5 b6 b7 b8 b9 where
    B: "statics s F_ledErrorWrite = [0x55, 0x55, b2, 4, 35, b5, b6, b7, b8, b9]"
    by (rule intact_buf [where f = F_ledErrorWrite]) (simp_all add: template_def)
  show ?thesis
    unfolding ledErrorWrite_def Let_def led_bits B upds
    by (subst finishWrite_eq) (simp_all add: upds spec_defs intact_updI [OF assms])
qed

section \<open>What receiving a reply changes\<close>

lemma busyWait_polls_only:
  "busyWait i need t = t\<lparr>polls := polls (busyWait i need t)\<rparr>"
proof (induction i need t rule: busyWait.induct)
  case (1 i need t)
  show ?case
  proof (cases "i < MaxBusyLoop")
    case False
    then show ?thesis by (subst (1 2) busyWait.simps) simp
  next
    case True
    show ?thesis
    proof (cases "fst (serialDataAvail t) < need")
      case False
      with True show ?thesis
        by (subst (1 2) busyWait.simps) (simp add: serialDataAvail_def)
    next
      case less: True
      have "busyWait i need t = busyWait (Suc i) need (snd (serialDataAvail t))"
        using True less by (subst busyWait.simps) simp
      moreover have "busyWait (Suc i) need (snd (serialDataAvail t)) =
          (snd (serialDataAvail t))\<lparr>polls := polls (busyWait (Suc i) need (snd (serialDataAvail t)))\<rparr>"
        using 1 True less by simp
      ultimately show ?thesis by (simp add: serialDataAvail_def)
    qed
  qed
qed

lemma busyWait_fields:
  "tx (busyWait i need t) = tx t"
  "gets (busyWait i need t) = gets t"
  "rxScript (busyWait i need t) = rxScript t"
  "availScript (busyWait i need t) = availScript t"
  "flushes (busyWait i need t) = flushes t"
  by (subst busyWait_polls_only, simp)+

lemma readContent_frame:
  "readContent i n res t = Some (res', t') \<Longrightarrow>
     length res' = length res \<and> tx t' = tx t \<and> rxScript t' = rxScript t
       \<and> availScript t' = availScript t \<and> polls t' = polls t"
proof (induction i n res t rule: readContent.induct)
  case (1 i n res t)
  show ?case
  proof (cases "i < n")
    case False
    with 1(2) show ?thesis by (subst (asm) readContent.simps) auto
  next
    case True
    with 1(2) have il: "i + 4 < length res"
      by (subst (asm) readContent.simps) (auto split: if_splits)
    with 1(2) True have "readContent (Suc i) n (res[i + 4 := word_of_int (fst (serialGetchar t))])
                   (snd (serialGetchar t)) = Some (res', t')"
      by (subst (asm) readContent.simps) simp
    from 1(1) [OF True il this] show ?thesis by (simp add: serialGetchar_def)
  qed
qed

lemma getMessage_frame:
  assumes "after (getMessage s) = Some s'"
  shows "tx (serial s') = tx (serial s)
     \<and> length (statics s' F_getMessage) = length (statics s F_getMessage)
     \<and> (\<forall>f. f \<noteq> F_getMessage \<longrightarrow> statics s' f = statics s f)"
  using assms
  by (auto simp add: getMessage_def Let_def busyWait_fields serialDataAvail_def serialGetchar_def
      split: if_splits option.splits dest!: readContent_frame)

lemma getMessage_intact:
  assumes "after (getMessage s) = Some s'" and "intact s"
  shows "intact s'"
  unfolding intact_def
proof
  fix f
  note fr = getMessage_frame [OF assms(1)]
  show "length (statics s' f) = 10 \<and> list_all (\<lambda>i. statics s' f ! i = initial f ! i) (fixedIdx f)"
  proof (cases "f = F_getMessage")
    case True
    with fr assms(2) show ?thesis by (simp add: intact_def fixedIdx_def)
  next
    case False
    with fr have "statics s' f = statics s f" by simp
    with assms(2) show ?thesis by (simp add: intact_def)
  qed
qed

section \<open>Every call sends its request and keeps the invariant\<close>

lemma after_exchange:
  "after (case getMessage x of
            Undefined \<Rightarrow> Undefined
          | Thrown e s2 \<Rightarrow> Thrown e s2
          | Returned u s2 \<Rightarrow>
              (case chk s2 of
                 None \<Rightarrow> Undefined
               | Some ok \<Rightarrow> if \<not> ok then Thrown e' s2 else Returned (g s2) s2)) = Some s'
   \<Longrightarrow> after (getMessage x) = Some s'"
  by (auto split: outcome.splits option.splits if_splits)

lemma after_decoded [simp]: "after (decoded d x) = after x"
  by (cases x) simp_all

lemma after_boxed [simp]: "after (boxed k x) = after x"
  by (cases x) simp_all

lemma upd_intact_serial: "intact (s\<lparr>serial := t\<rparr>) = intact s"
  by (simp add: intact_def)

lemma genericRead_sent:
  assumes "intact s" and "f \<noteq> F_getMessage" and "initial f ! 3 = 3"
    and "after (genericRead a f rs s) = Some s'" and "f \<noteq> F_moveStart" and "f \<noteq> F_moveStop"
  shows "tx (serial s') = tx (serial s) @ encode a (initial f ! 4) [] \<and> intact s'"
proof -
  from assms(1,2) obtain b2 b5 b6 b7 b8 b9 where
    B: "statics s f = [0x55, 0x55, b2, 3, initial f ! 4, b5, b6, b7, b8, b9]"
    by (rule intact_buf [where f = f]) (simp add: assms(3))
  let ?c = "spec_checksum [a, 3, initial f ! 4]"
  let ?buf = "[0x55, 0x55, a, 3, initial f ! 4, ?c, b6, b7, b8, b9]"
  let ?s1 = "s\<lparr>statics := (statics s)(f := ?buf)\<rparr>"
  let ?t = "(serialFlush (serial s))\<lparr>tx := tx (serial s) @ [0x55, 0x55, a, 3, initial f ! 4, ?c]\<rparr>"
  have ck: "checksum [0x55, 0x55, a, 3, initial f ! 4, b5, b6, b7, b8, b9] = Some ?c"
    by (subst checksum_eq) simp_all
  have sb: "sendBuf ?buf (serialFlush (serial s)) = Some ?t"
    by (subst sendBuf_eq) (simp_all add: serialFlush_def)
  have "intact (s\<lparr>serial := ?t, statics := (statics s)(f := ?buf)\<rparr>)"
    using initial_head [OF assms(2)] assms(2,3,5,6)
    by (intro intact_upd [OF assms(1)]) (simp_all add: fixedIdx_def)
  then have i1: "intact (?s1\<lparr>serial := ?t\<rparr>)" by (simp add: intact_def)
  from assms(4) have "after (getMessage (?s1\<lparr>serial := ?t\<rparr>)) = Some s'"
    unfolding genericRead_def Let_def B upds
    by (simp add: ck sb upds) (erule after_exchange)
  from getMessage_frame [OF this] getMessage_intact [OF this i1]
  show ?thesis by (simp add: encode_def)
qed


lemma idRead_sent:
  assumes "intact s" and "after (idRead a s) = Some s'"
  shows "tx (serial s') = tx (serial s) @ encode 254 14 [] \<and> intact s'"
proof -
  from assms(1) obtain b2 b5 b6 b7 b8 b9 where
    B: "statics s F_idRead = [0x55, 0x55, b2, 3, 14, b5, b6, b7, b8, b9]"
    by (rule intact_buf [where f = F_idRead]) (simp_all add: template_def)
  let ?c = "spec_checksum [254, 3, 14]"
  let ?buf = "[0x55, 0x55, 254, 3, 14, ?c, b6, b7, b8, b9]"
  let ?s1 = "s\<lparr>statics := (statics s)(F_idRead := ?buf)\<rparr>"
  let ?t = "(serialFlush (serial s))\<lparr>tx := tx (serial s) @ [0x55, 0x55, 254, 3, 14, ?c]\<rparr>"
  have ck: "checksum [0x55, 0x55, 254, 3, 14, b5, b6, b7, b8, b9] = Some ?c"
    by (subst checksum_eq) simp_all
  have sb: "sendBuf ?buf (serialFlush (serial s)) = Some ?t"
    by (subst sendBuf_eq) (simp_all add: serialFlush_def)
  have "intact (s\<lparr>serial := ?t, statics := (statics s)(F_idRead := ?buf)\<rparr>)"
    by (intro intact_upd [OF assms(1)]) (simp_all add: fixedIdx_def template_def FrameHeader_def)
  then have i1: "intact (?s1\<lparr>serial := ?t\<rparr>)" by (simp add: intact_def)
  from assms(2) have "after (getMessage (?s1\<lparr>serial := ?t\<rparr>)) = Some s'"
    unfolding idRead_def Let_def B upds
    by (simp add: ck sb upds) (erule after_exchange)
  from getMessage_frame [OF this] getMessage_intact [OF this i1]
  show ?thesis by (simp add: encode_def)
qed

lemmas read_defs = moveTimeRead_def moveTimeWaitRead_def angleOffsetRead_def angleLimitRead_def
  vinLimitRead_def tempMaxLimitRead_def tempRead_def vinRead_def posRead_def
  servoOrMotorModeRead_def loadOrUnloadRead_def ledCtrlRead_def ledErrorRead_def

lemma invoke_sent:
  assumes "intact s" and "after (invoke a c s) = Some s'"
  shows "tx (serial s') = tx (serial s) @ request a c \<and> intact s'"
proof (cases c)
  case (MoveTimeWrite p t)
  with assms(2) w_moveTimeWrite [OF assms(1), of a p t] show ?thesis by auto
next
  case (MoveTimeWaitWrite p t)
  with assms(2) w_moveTimeWaitWrite [OF assms(1), of a p t] show ?thesis by auto
next
  case MoveStart
  with assms(2) w_moveStart [OF assms(1), of a] show ?thesis by auto
next
  case MoveStop
  with assms(2) w_moveStop [OF assms(1), of a] show ?thesis by auto
next
  case (IdWrite n)
  with assms(2) w_idWrite [OF assms(1), of a n] show ?thesis by auto
next
  case (AngleOffsetAdjust d)
  with assms(2) w_angleOffsetAdjust [OF assms(1), of a d] show ?thesis by auto
next
  case AngleOffsetWrite
  with assms(2) w_angleOffsetWrite [OF assms(1), of a] show ?thesis by auto
next
  case (AngleLimitWrite l h)
  with assms(2) w_angleLimitWrite [OF assms(1), of a l h] show ?thesis by auto
next
  case (VinLimitWrite l h)
  with assms(2) w_vinLimitWrite [OF assms(1), of a l h] show ?thesis by auto
next
  case (TempMaxLimitWrite m)
  with assms(2) w_tempMaxLimitWrite [OF assms(1), of a m] show ?thesis by auto
next
  case (ServoOrMotorModeWrite m v)
  with assms(2) w_servoOrMotorModeWrite [OF assms(1), of a m v] show ?thesis by auto
next
  case (LoadOrUnloadWrite m)
  with assms(2) w_loadOrUnloadWrite [OF assms(1), of a m] show ?thesis by auto
next
  case (LedCtrlWrite p)
  with assms(2) w_ledCtrlWrite [OF assms(1), of a p] show ?thesis by auto
next
  case (LedErrorWrite x y z)
  with assms(2) w_ledErrorWrite [OF assms(1), of a x y z] show ?thesis by auto
next
  case IdRead
  with assms(2) idRead_sent [OF assms(1), of a s'] show ?thesis
    by (simp add: request_def target_def commandId_def payload_def)
next
  case MoveTimeRead
  with assms(2) have "after (genericRead a F_moveTimeRead 7 s) = Some s'" by (simp add: moveTimeRead_def)
  from genericRead_sent [OF assms(1) _ _ this]
  have "tx (serial s') = tx (serial s) @ encode a (initial F_moveTimeRead ! 4) [] \<and> intact s'"
    by (simp add: template_def)
  then show ?thesis
    by (simp add: MoveTimeRead request_def target_def commandId_def payload_def template_def)
next
  case MoveTimeWaitRead
  with assms(2) have "after (genericRead a F_moveTimeWaitRead 7 s) = Some s'" by (simp add: moveTimeWaitRead_def)
  from genericRead_sent [OF assms(1) _ _ this]
  have "tx (serial s') = tx (serial s) @ encode a (initial F_moveTimeWaitRead ! 4) [] \<and> intact s'"
    by (simp add: template_def)
  then show ?thesis
    by (simp add: MoveTimeWaitRead request_def target_def commandId_def payload_def template_def)
next
  case AngleOffsetRead
  with assms(2) have "after (genericRead a F_angleOffsetRead 4 s) = Some s'" by (simp add: angleOffsetRead_def)
  from genericRead_sent [OF assms(1) _ _ this]
  have "tx (serial s') = tx (serial s) @ encode a (initial F_angleOffsetRead ! 4) [] \<and> intact s'"
    by (simp add: template_def)
  then show ?thesis
    by (simp add: AngleOffsetRead request_def target_def commandId_def payload_def template_def)
next
  case AngleLimitRead
  with assms(2) have "after (genericRead a F_angleLimitRead 7 s) = Some s'" by (simp add: angleLimitRead_def)
  from genericRead_sent [OF assms(1) _ _ this]
  have "tx (serial s') = tx (serial s) @ encode a (initial F_angleLimitRead ! 4) [] \<and> intact s'"
    by (simp add: template_def)
  then show ?thesis
    by (simp add: AngleLimitRead request_def target_def commandId_def payload_def template_def)
next
  case VinLimitRead
  with assms(2) have "after (genericRead a F_vinLimitRead 7 s) = Some s'" by (simp add: vinLimitRead_def)
  from genericRead_sent [OF assms(1) _ _ this]
  have "tx (serial s') = tx (serial s) @ encode a (initial F_vinLimitRead ! 4) [] \<and> intact s'"
    by (simp add: template_def)
  then show ?thesis
    by (simp add: VinLimitRead request_def target_def commandId_def payload_def template_def)
next
  case TempMaxLimitRead
  with assms(2) have "after (genericRead a F_tempMaxLimitRead 4 s) = Some s'" by (simp add: tempMaxLimitRead_def)
  from genericRead_sent [OF assms(1) _ _ this]
  have "tx (serial s') = tx (serial s) @ encode a (initial F_tempMaxLimitRead ! 4) [] \<and> intact s'"
    by (simp add: template_def)
  then show ?thesis
    by (simp add: TempMaxLimitRead request_def target_def commandId_def payload_def template_def)
next
  case TempRead
  with assms(2) have "after (genericRead a F_tempRead 4 s) = Some s'" by (simp add: tempRead_def)
  from genericRead_sent [OF assms(1) _ _ this]
  have "tx (serial s') = tx (serial s) @ encode a (initial F_tempRead ! 4) [] \<and> intact s'"
    by (simp add: template_def)
  then show ?thesis
    by (simp add: TempRead request_def target_def commandId_def payload_def template_def)
next
  case VinRead
  with assms(2) have "after (genericRead a F_vinRead 5 s) = Some s'" by (simp add: vinRead_def)
  from genericRead_sent [OF assms(1) _ _ this]
  have "tx (serial s') = tx (serial s) @ encode a (initial F_vinRead ! 4) [] \<and> intact s'"
    by (simp add: template_def)
  then show ?thesis
    by (simp add: VinRead request_def target_def commandId_def payload_def template_def)
next
  case PosRead
  with assms(2) have "after (genericRead a F_posRead 5 s) = Some s'" by (simp add: posRead_def)
  from genericRead_sent [OF assms(1) _ _ this]
  have "tx (serial s') = tx (serial s) @ encode a (initial F_posRead ! 4) [] \<and> intact s'"
    by (simp add: template_def)
  then show ?thesis
    by (simp add: PosRead request_def target_def commandId_def payload_def template_def)
next
  case ServoOrMotorModeRead
  with assms(2) have "after (genericRead a F_servoOrMotorModeRead 7 s) = Some s'" by (simp add: servoOrMotorModeRead_def)
  from genericRead_sent [OF assms(1) _ _ this]
  have "tx (serial s') = tx (serial s) @ encode a (initial F_servoOrMotorModeRead ! 4) [] \<and> intact s'"
    by (simp add: template_def)
  then show ?thesis
    by (simp add: ServoOrMotorModeRead request_def target_def commandId_def payload_def template_def)
next
  case LoadOrUnloadRead
  with assms(2) have "after (genericRead a F_loadOrUnloadRead 4 s) = Some s'" by (simp add: loadOrUnloadRead_def)
  from genericRead_sent [OF assms(1) _ _ this]
  have "tx (serial s') = tx (serial s) @ encode a (initial F_loadOrUnloadRead ! 4) [] \<and> intact s'"
    by (simp add: template_def)
  then show ?thesis
    by (simp add: LoadOrUnloadRead request_def target_def commandId_def payload_def template_def)
next
  case LedCtrlRead
  with assms(2) have "after (genericRead a F_ledCtrlRead 4 s) = Some s'" by (simp add: ledCtrlRead_def)
  from genericRead_sent [OF assms(1) _ _ this]
  have "tx (serial s') = tx (serial s) @ encode a (initial F_ledCtrlRead ! 4) [] \<and> intact s'"
    by (simp add: template_def)
  then show ?thesis
    by (simp add: LedCtrlRead request_def target_def commandId_def payload_def template_def)
next
  case LedErrorRead
  with assms(2) have "after (genericRead a F_ledErrorRead 4 s) = Some s'" by (simp add: ledErrorRead_def)
  from genericRead_sent [OF assms(1) _ _ this]
  have "tx (serial s') = tx (serial s) @ encode a (initial F_ledErrorRead ! 4) [] \<and> intact s'"
    by (simp add: template_def)
  then show ?thesis
    by (simp add: LedErrorRead request_def target_def commandId_def payload_def template_def)
qed

lemma intact_boot: "intact (boot t)"
  unfolding intact_def boot_def
proof
  fix f
  show "length (statics \<lparr>serial = t, statics = initial\<rparr> f) = 10 \<and>
      list_all (\<lambda>i. statics \<lparr>serial = t, statics = initial\<rparr> f ! i = initial f ! i) (fixedIdx f)"
    by (cases f) (simp_all add: template_def fixedIdx_def)
qed

lemma run_intact: "intact s \<Longrightarrow> run h s = Some s' \<Longrightarrow> intact s'"
proof (induction h arbitrary: s)
  case Nil
  then show ?case by simp
next
  case (Cons x h)
  obtain a c where x: "x = (a, c)" by (cases x)
  from Cons.prems(2) obtain s1 where s1: "after (invoke a c s) = Some s1" and r: "run h s1 = Some s'"
    by (auto simp add: x split: option.splits)
  from invoke_sent [OF Cons.prems(1) s1] have "intact s1" by simp
  from Cons.IH [OF this r] show ?case .
qed

lemma reached_intact: "run h (boot t) = Some s \<Longrightarrow> intact s"
  by (rule run_intact [OF intact_boot])


section \<open>A line that stays below four bytes\<close>

lemma busyWait_starved:
  "(\<forall>j < MaxBusyLoop - i. availScript t (polls t + j) < need) \<Longrightarrow>
   busyWait i need t = t\<lparr>polls := polls t + (MaxBusyLoop - i)\<rparr>"
proof (induction i need t rule: busyWait.induct)
  case (1 i need t)
  show ?case
  proof (cases "i < MaxBusyLoop")
    case False
    then show ?thesis by (subst busyWait.simps) simp
  next
    case True
    with 1(2) have less: "fst (serialDataAvail t) < need"
      by (auto simp add: serialDataAvail_def dest: spec [where x = 0])
    have "\<forall>j<MaxBusyLoop - Suc i. availScript (snd (serialDataAvail t)) (polls (snd (serialDataAvail t)) + j) < need"
    proof (intro allI impI)
      fix j assume "j < MaxBusyLoop - Suc i"
      then have "Suc j < MaxBusyLoop - i" by simp
      with 1(2) have "availScript t (polls t + Suc j) < need" by blast
      then show "availScript (snd (serialDataAvail t)) (polls (snd (serialDataAvail t)) + j) < need"
        by (simp add: serialDataAvail_def)
    qed
    from 1(1) [OF True less this] True less show ?thesis
      by (subst busyWait.simps) (simp add: serialDataAvail_def)
  qed
qed

lemma busyWait_ready:
  "i < MaxBusyLoop \<Longrightarrow> \<not> availScript t (polls t) < need \<Longrightarrow>
   busyWait i need t = t\<lparr>polls := Suc (polls t)\<rparr>"
  by (subst busyWait.simps) (simp add: serialDataAvail_def)

lemma getMessage_starved:
  assumes "starvedFor (Suc MaxBusyLoop) (serial s)"
  shows "getMessage s = Thrown HeaderTimeoutError
    (s\<lparr>serial := (serial s)\<lparr>polls := Suc (polls (serial s) + MaxBusyLoop)\<rparr>,
       statics := (statics s)(F_getMessage := (statics s F_getMessage)[2 := 0, 3 := 0])\<rparr>)"
proof -
  from assms have a: "\<forall>j < MaxBusyLoop - 0. availScript (serial s) (polls (serial s) + j) < 4"
    and b: "availScript (serial s) (polls (serial s) + MaxBusyLoop) < 4"
    by (simp_all add: starvedFor_def)
  show ?thesis
    unfolding getMessage_def Let_def busyWait_starved [OF a]
    using b by (simp add: serialDataAvail_def)
qed

lemma genericRead_starved:
  assumes "intact s" and "f \<noteq> F_getMessage" and "initial f ! 3 = 3"
    and "starvedFor (Suc MaxBusyLoop) (serial s)"
  shows "\<exists>s'. genericRead a f rs s = Thrown HeaderTimeoutError s'"
proof -
  from assms(1,2) obtain b2 b5 b6 b7 b8 b9 where
    B: "statics s f = [0x55, 0x55, b2, 3, initial f ! 4, b5, b6, b7, b8, b9]"
    by (rule intact_buf [where f = f]) (simp add: assms(3))
  let ?c = "spec_checksum [a, 3, initial f ! 4]"
  let ?buf = "[0x55, 0x55, a, 3, initial f ! 4, ?c, b6, b7, b8, b9]"
  let ?s1 = "s\<lparr>statics := (statics s)(f := ?buf)\<rparr>"
  let ?t = "(serialFlush (serial s))\<lparr>tx := tx (serial s) @ [0x55, 0x55, a, 3, initial f ! 4, ?c]\<rparr>"
  have ck: "checksum [0x55, 0x55, a, 3, initial f ! 4, b5, b6, b7, b8, b9] = Some ?c"
    by (subst checksum_eq) simp_all
  have sb: "sendBuf ?buf (serialFlush (serial s)) = Some ?t"
    by (subst sendBuf_eq) (simp_all add: serialFlush_def)
  have "starvedFor (Suc MaxBusyLoop) (serial (?s1\<lparr>serial := ?t\<rparr>))"
    using assms(4) by (simp add: starvedFor_def serialFlush_def)
  from getMessage_starved [OF this] show ?thesis
    unfolding genericRead_def Let_def B upds
    by (simp add: ck sb upds)
qed

lemma idRead_starved:
  assumes "intact s" and "starvedFor (Suc MaxBusyLoop) (serial s)"
  shows "\<exists>s'. idRead a s = Thrown HeaderTimeoutError s'"
proof -
  from assms(1) obtain b2 b5 b6 b7 b8 b9 where
    B: "statics s F_idRead = [0x55, 0x55, b2, 3, 14, b5, b6, b7, b8, b9]"
    by (rule intact_buf [where f = F_idRead]) (simp_all add: template_def)
  let ?c = "spec_checksum [254, 3, 14]"
  let ?buf = "[0x55, 0x55, 254, 3, 14, ?c, b6, b7, b8, b9]"
  let ?s1 = "s\<lparr>statics := (statics s)(F_idRead := ?buf)\<rparr>"
  let ?t = "(serialFlush (serial s))\<lparr>tx := tx (serial s) @ [0x55, 0x55, 254, 3, 14, ?c]\<rparr>"
  have ck: "checksum [0x55, 0x55, 254, 3, 14, b5, b6, b7, b8, b9] = Some ?c"
    by (subst checksum_eq) simp_all
  have sb: "sendBuf ?buf (serialFlush (serial s)) = Some ?t"
    by (subst sendBuf_eq) (simp_all add: serialFlush_def)
  have "starvedFor (Suc MaxBusyLoop) (serial (?s1\<lparr>serial := ?t\<rparr>))"
    using assms(2) by (simp add: starvedFor_def serialFlush_def)
  from getMessage_starved [OF this] show ?thesis
    unfolding idRead_def Let_def B upds
    by (simp add: ck sb upds)
qed

lemma starved_quiet: "starvedFor n (serial (boot quiet))"
  by (simp add: starvedFor_def boot_def quiet_def)

lemma sent_request:
  assumes "intact s" and "sent a c s = Some x"
  shows "x = request a c"
proof -
  from assms(2) obtain s' where s': "after (invoke a c s) = Some s'"
    and x: "x = drop (length (tx (serial s))) (tx (serial s'))"
    by (auto simp add: sent_def split: option.splits)
  from invoke_sent [OF assms(1) s'] x show ?thesis by simp
qed


section \<open>Decoding a 16-bit field; the static buffer after a call\<close>

lemma static_moveTimeWrite:
  assumes "intact s" and "moveTimeWrite a p t s = Returned () s'"
  shows "statics s' F_moveTimeWrite = request a (MoveTimeWrite p t)"
proof -
  from assms(1) obtain b2 b5 b6 b7 b8 b9 where
    B: "statics s F_moveTimeWrite = [0x55, 0x55, b2, 7, 1, b5, b6, b7, b8, b9]"
    by (rule intact_buf [where f = F_moveTimeWrite]) (simp_all add: template_def)
  have "moveTimeWrite a p t s = Returned ()
      (s\<lparr>serial := (serial s)\<lparr>tx := tx (serial s) @ request a (MoveTimeWrite p t)\<rparr>,
         statics := (statics s)(F_moveTimeWrite := request a (MoveTimeWrite p t))\<rparr>)"
    unfolding moveTimeWrite_def Let_def clamp_pos B upds
    by (subst finishWrite_eq) (simp_all add: upds spec_defs)
  with assms(2) show ?thesis by auto
qed

lemma uint_lo: "uint (word_of_int (uint (w :: 16 word) mod 256) :: u8) = uint w mod 256"
  by (simp add: uint_word_of_int)

lemma uint_hi: "uint (word_of_int (uint (w :: 16 word) div 256) :: u8) = uint w div 256"
proof -
  have "uint w < 65536" using uint_lt2p [of w] by simp
  then have "uint w div 256 < 256" by simp
  moreover have "0 \<le> uint w div 256" by (simp add: pos_imp_zdiv_nonneg_iff)
  ultimately show ?thesis by (simp add: uint_word_of_int)
qed

lemma le16_decode:
  "word_of_int (lowHigh (le16 w ! 0) (le16 w ! 1)) = w"
  by (simp add: lowHigh_def le16_def uint_lo uint_hi push_bit_eq_mult)

lemma sint_clamp16:
  "- 32768 \<le> lo \<Longrightarrow> lo \<le> hi \<Longrightarrow> hi < 32768 \<Longrightarrow>
   sint (word_of_int (clamp lo hi x) :: i16) = clamp lo hi x"
  by (rule sint_small) (auto simp add: clamp_def)


section \<open>The shape of an encoded frame\<close>

lemma payload_length: "length (payload c) \<le> 4"
  by (cases c) (simp_all add: payload_def le16_def)

lemma encode_wf:
  assumes "length pl \<le> 4"
  shows "length (encode a cmd pl) = unat (encode a cmd pl ! 3) + 3
     \<and> take (unat (encode a cmd pl ! 3)) (drop 2 (encode a cmd pl)) = [a, word_of_nat (3 + length pl), cmd] @ pl
     \<and> last (encode a cmd pl) = spec_checksum ([a, word_of_nat (3 + length pl), cmd] @ pl)"
proof -
  have "unat (word_of_nat (3 + length pl) :: u8) = (3 + length pl) mod 2 ^ LENGTH(8)"
    by (simp only: unat_of_nat)
  also have "\<dots> = 3 + length pl" using assms by simp
  finally have u: "unat (word_of_nat (3 + length pl) :: u8) = 3 + length pl" .
  have n3: "encode a cmd pl ! 3 = word_of_nat (3 + length pl)"
    by (simp add: encode_def)
  have t: "take (3 + length pl) (x # y # z # pl @ w) = x # y # z # pl" for x y z :: u8 and w
    by (simp add: numeral_3_eq_3)
  show ?thesis unfolding n3 u by (simp add: encode_def t)
qed


section \<open>The exchange on the line with a late reply\<close>

lemma MaxBusyLoop_pos: "0 < MaxBusyLoop"
  by (simp add: MaxBusyLoop_def)

lemma late_fields:
  "availScript late = (\<lambda>n. if n < MaxBusyLoop then 0 else if n = MaxBusyLoop then 7 else 3)"
  "polls late = 0" "gets late = 0" "tx late = []" "flushes late = 0"
  "rxScript late = (\<lambda>n. if n < 7 then [0x55, 0x55, 0x07, 0x04, 0x0E, 0x07, 0xDF] ! n else - 1)"
  by (simp_all add: late_def)

lemma getMessage_late:
  assumes "length (st F_getMessage) = 10"
  shows "getMessage \<lparr>serial = late\<lparr>tx := out, flushes := k\<rparr>, statics = st\<rparr>
     = Returned ()
        \<lparr>serial = late\<lparr>polls := MaxBusyLoop + 3, gets := 7, tx := out, flushes := k\<rparr>,
         statics = st(F_getMessage := (st F_getMessage)[0 := 0x55, 1 := 0x55, 2 := 0x07, 3 := 0x04,
                      4 := 0x0E, 5 := 0x07, 6 := 0xDF])\<rparr>"
  unfolding getMessage_def Let_def
  apply (simp add: busyWait_starved busyWait_ready late_fields MaxBusyLoop_pos
      serialDataAvail_def serialGetchar_def assms)
  apply (simp add: readContent.simps assms serialGetchar_def late_fields)
  done


section \<open>Where the bytes of a reply come from\<close>

lemma readContent_keep:
  "readContent i n res t = Some (res', t') \<Longrightarrow> k < i + 4 \<Longrightarrow> res' ! k = res ! k"
proof (induction i n res t rule: readContent.induct)
  case (1 i n res t)
  show ?case
  proof (cases "i < n")
    case False
    with 1(2) show ?thesis by (subst (asm) readContent.simps) auto
  next
    case True
    with 1(2) have il: "i + 4 < length res"
      by (subst (asm) readContent.simps) (auto split: if_splits)
    with 1(2) True have "readContent (Suc i) n (res[i + 4 := word_of_int (fst (serialGetchar t))])
                   (snd (serialGetchar t)) = Some (res', t')"
      by (subst (asm) readContent.simps) simp
    from 1(1) [OF True il this] 1(3) show ?thesis by simp
  qed
qed

lemma readContent_nth:
  "readContent i n res t = Some (res', t') \<Longrightarrow> i \<le> j \<Longrightarrow> j < n \<Longrightarrow>
     res' ! (j + 4) = word_of_int (rxScript t (gets t + j - i))"
proof (induction i n res t rule: readContent.induct)
  case (1 i n res t)
  from 1(3,4) have True: "i < n" by simp
  with 1(2) have il: "i + 4 < length res"
    by (subst (asm) readContent.simps) (auto split: if_splits)
  with 1(2) True have rc: "readContent (Suc i) n (res[i + 4 := word_of_int (fst (serialGetchar t))])
                   (snd (serialGetchar t)) = Some (res', t')"
    by (subst (asm) readContent.simps) simp
  show ?case
  proof (cases "j = i")
    case True
    from readContent_keep [OF rc, of "i + 4"] il True show ?thesis
      by (simp add: serialGetchar_def)
  next
    case False
    with 1(3) have "Suc i \<le> j" by simp
    from 1(1) [OF \<open>i < n\<close> il rc this 1(4)] this show ?thesis
      by (simp add: serialGetchar_def)
  qed
qed

lemma getMessage_Returned:
  assumes "getMessage s = Returned u s'"
  shows "\<exists>n r t t'. readContent 0 n r t = Some (statics s' F_getMessage, t')
     \<and> n = (unat (r ! 3) + 2 ^ 32 - 1) mod 2 ^ 32
     \<and> rxScript t = rxScript (serial s) \<and> gets t = gets (serial s) + 4"
proof (cases "fst (serialDataAvail (busyWait 0 4 (serial s))) < 4")
  case True
  with assms show ?thesis by (simp add: getMessage_def Let_def)
next
  case False
  define t2 where "t2 = snd (serialDataAvail (busyWait 0 4 (serial s)))"
  define t6 where "t6 = snd (serialGetchar (snd (serialGetchar (snd (serialGetchar (snd (serialGetchar t2)))))))"
  define r where "r = (statics s F_getMessage)
     [0 := word_of_int (fst (serialGetchar t2)),
      1 := word_of_int (fst (serialGetchar (snd (serialGetchar t2)))),
      2 := word_of_int (fst (serialGetchar (snd (serialGetchar (snd (serialGetchar t2)))))),
      3 := word_of_int (fst (serialGetchar (snd (serialGetchar (snd (serialGetchar (snd (serialGetchar t2))))))))]"
  define t8 where "t8 = snd (serialDataAvail (busyWait 0 (uint (r ! 3) - 1) t6))"
  have f: "rxScript t8 = rxScript (serial s)" "gets t8 = gets (serial s) + 4"
    by (simp_all add: t8_def t6_def t2_def busyWait_fields serialDataAvail_def serialGetchar_def)
  from assms False obtain res' t9 where
    "readContent 0 ((unat (r ! 3) + 2 ^ 32 - 1) mod 2 ^ 32) r t8 = Some (res', t9)"
    and "s' = s\<lparr>serial := t9, statics := (statics s)(F_getMessage := res')\<rparr>"
    unfolding getMessage_def Let_def t2_def [symmetric]
    unfolding r_def [symmetric] t6_def [symmetric]
    unfolding t8_def [symmetric]
    by (auto split: if_splits option.splits)
  with f show ?thesis by auto
qed

lemma getMessage_byte5:
  assumes "getMessage s = Returned u s'"
    and "unat (statics s' F_getMessage ! 3) = 4"
  shows "statics s' F_getMessage ! 5 = word_of_int (rxScript (serial s) (gets (serial s) + 5))"
proof -
  from getMessage_Returned [OF assms(1)] obtain n r t t' where
    rc: "readContent 0 n r t = Some (statics s' F_getMessage, t')"
    and n: "n = (unat (r ! 3) + 2 ^ 32 - 1) mod 2 ^ 32"
    and f: "rxScript t = rxScript (serial s)" "gets t = gets (serial s) + 4"
    by blast
  from readContent_keep [OF rc, of 3] assms(2) have "unat (r ! 3) = 4" by simp
  with n have "n = 3" by simp
  with readContent_nth [OF rc, of 1] f show ?thesis by (simp add: add.commute)
qed


lemma genericRead_Returned:
  assumes "genericRead a f rs s = Returned r s'" and "intact s" and "f \<noteq> F_getMessage"
    and "initial f ! 3 = 3"
  shows "r = statics s' F_getMessage \<and> checkMessage r (initial f ! 4) (unat rs) = Some True
     \<and> (unat (r ! 3) = 4 \<longrightarrow> r ! 5 = word_of_int (rxScript (serial s) (gets (serial s) + 5)))"
proof -
  from assms(2,3) obtain b2 b5 b6 b7 b8 b9 where
    B: "statics s f = [0x55, 0x55, b2, 3, initial f ! 4, b5, b6, b7, b8, b9]"
    by (rule intact_buf [where f = f]) (simp add: assms(4))
  let ?c = "spec_checksum [a, 3, initial f ! 4]"
  let ?buf = "[0x55, 0x55, a, 3, initial f ! 4, ?c, b6, b7, b8, b9]"
  let ?s1 = "s\<lparr>statics := (statics s)(f := ?buf)\<rparr>"
  let ?t = "(serialFlush (serial s))\<lparr>tx := tx (serial s) @ [0x55, 0x55, a, 3, initial f ! 4, ?c]\<rparr>"
  have ck: "checksum [0x55, 0x55, a, 3, initial f ! 4, b5, b6, b7, b8, b9] = Some ?c"
    by (subst checksum_eq) simp_all
  have sb: "sendBuf ?buf (serialFlush (serial s)) = Some ?t"
    by (subst sendBuf_eq) (simp_all add: serialFlush_def)
  from assms(1) obtain u where g: "getMessage (?s1\<lparr>serial := ?t\<rparr>) = Returned u s'"
    and c: "checkMessage (statics s' F_getMessage) (initial f ! 4) (unat rs) = Some True"
    and r: "r = statics s' F_getMessage"
    unfolding genericRead_def Let_def B upds
    by (auto simp add: ck sb upds split: outcome.splits option.splits if_splits)
  from getMessage_byte5 [OF g] r c show ?thesis
    by (simp add: serialFlush_def)
qed

lemma word_of_sum_uint: "(word_of_int (sum_list (map uint bs)) :: u8) = sum_list bs"
  by (induction bs) simp_all

lemma spec_checksum_word: "spec_checksum bs = NOT (sum_list bs)"
proof -
  have m: "(0xFF::int) = mask 8" by (simp add: mask_eq_exp_minus_1)
  have "(word_of_int (and (not x) 0xFF) :: u8) = NOT (word_of_int x)" for x
    unfolding m by (rule bit_word_eqI) (auto simp add: bit_simps)
  then show ?thesis by (simp add: spec_checksum_def word_of_sum_uint)
qed

lemma ledReply_fields:
  "availScript (ledReply b) = (\<lambda>n. if n < 2 then 7 else 3)"
  "polls (ledReply b) = 0" "gets (ledReply b) = 0" "tx (ledReply b) = []" "flushes (ledReply b) = 0"
  "rxScript (ledReply b) = (\<lambda>n. if n < 7
       then [0x55, 0x55, 0x01, 0x04, 0x22, uint b, uint (NOT (0x01 + 0x04 + 0x22 + b))] ! n else - 1)"
  by (simp_all add: ledReply_def)

lemma getMessage_ledReply:
  assumes "length (st F_getMessage) = 10"
  shows "getMessage \<lparr>serial = (ledReply b)\<lparr>tx := out, flushes := k\<rparr>, statics = st\<rparr>
     = Returned ()
        \<lparr>serial = (ledReply b)\<lparr>polls := 4, gets := 7, tx := out, flushes := k\<rparr>,
         statics = st(F_getMessage := (st F_getMessage)[0 := 0x55, 1 := 0x55, 2 := 0x01, 3 := 0x04,
                      4 := 0x22, 5 := b, 6 := NOT (0x01 + 0x04 + 0x22 + b)])\<rparr>"
  unfolding getMessage_def Let_def
  apply (simp add: busyWait_ready ledReply_fields MaxBusyLoop_pos
      serialDataAvail_def serialGetchar_def assms)
  apply (simp add: readContent.simps assms serialGetchar_def ledReply_fields)
  done

lemma ledCtrlRead_ledReply:
  "\<exists>s'. ledCtrlRead 1 (boot (ledReply b)) = Returned (PowerLed b) s'"
proof -
  let ?buf = "[0x55, 0x55, 0x01, 0x03, 0x22, 0xD9, 0, 0, 0, 0 :: u8]"
  let ?res = "[0x55, 0x55, 0x01, 0x04, 0x22, b, NOT (0x01 + 0x04 + 0x22 + b), 0, 0, 0 :: u8]"
  have ck: "checksum [0x55, 0x55, 0x01, 0x03, 0x22, 0, 0, 0, 0, 0] = Some 0xD9"
    by (subst checksum_eq) (simp_all add: spec_checksum_def)
  have sb: "sendBuf ?buf (serialFlush (ledReply b))
      = Some ((ledReply b)\<lparr>tx := [0x55, 0x55, 0x01, 0x03, 0x22, 0xD9], flushes := Suc 0\<rparr>)"
    by (subst sendBuf_eq) (simp_all add: serialFlush_def ledReply_fields)
  have gm: "getMessage \<lparr>serial = (ledReply b)\<lparr>tx := [0x55, 0x55, 0x01, 0x03, 0x22, 0xD9], flushes := Suc 0\<rparr>,
        statics = initial(F_ledCtrlRead := ?buf)\<rparr>
     = Returned ()
        \<lparr>serial = (ledReply b)\<lparr>polls := 4, gets := 7,
                        tx := [0x55, 0x55, 0x01, 0x03, 0x22, 0xD9], flushes := Suc 0\<rparr>,
         statics = initial(F_ledCtrlRead := ?buf, F_getMessage := ?res)\<rparr>"
    by (subst getMessage_ledReply) (simp_all add: eval_nat_numeral)
  have rc: "checksum [0x55, 0x55, 0x01, 0x04, 0x22, b, NOT (39 + b), 0, 0, 0] = Some (NOT (39 + b))"
    by (subst checksum_eq) (simp_all add: spec_checksum_word)
  show ?thesis
    unfolding ledCtrlRead_def genericRead_def Let_def boot_def
    by (simp add: template_def FrameHeader_def pholder_def upds ck sb gm checkMessage_def rc)
qed

section \<open>Properties of the driver\<close>

subsection \<open>C1\<close>

text \<open>
  C1. A client bound to address 1 that calls \<open>moveTimeWrite\<close> with position 500 and
  time 1000, after any history of calls on any line, returns and puts exactly the ten
  bytes 55 55 01 07 01 F4 01 E8 03 16 on the line; and 16 is the low byte of the
  complement of 01+07+01+F4+01+E8+03.
\<close>

theorem moveTimeWrite_500_1000:
  assumes "run h (boot t) = Some s"
  shows "\<exists>s'. moveTimeWrite 1 500 1000 s = Returned () s'
     \<and> tx (serial s') = tx (serial s) @ [0x55, 0x55, 0x01, 0x07, 0x01, 0xF4, 0x01, 0xE8, 0x03, 0x16]
     \<and> (0x16 :: u8) = spec_checksum [0x01, 0x07, 0x01, 0xF4, 0x01, 0xE8, 0x03]"
proof -
  have r: "request 1 (MoveTimeWrite 500 1000) = [0x55, 0x55, 0x01, 0x07, 0x01, 0xF4, 0x01, 0xE8, 0x03, 0x16]"
    by (simp add: spec_defs clamp_def spec_checksum_def)
  have c: "(0x16 :: u8) = spec_checksum [0x01, 0x07, 0x01, 0xF4, 0x01, 0xE8, 0x03]"
    by (simp add: spec_checksum_def)
  from w_moveTimeWrite [OF reached_intact [OF assms], of 1 500 1000] r c show ?thesis by auto
qed

theorem moveTimeWrite_500_1000_witness:
  "\<exists>s. run [(9, MoveTimeWrite 77 5), (3, MoveStop)] (boot quiet) = Some s
     \<and> (\<exists>s'. moveTimeWrite 1 500 1000 s = Returned () s'
     \<and> tx (serial s') = tx (serial s) @ [0x55, 0x55, 0x01, 0x07, 0x01, 0xF4, 0x01, 0xE8, 0x03, 0x16]
     \<and> (0x16 :: u8) = spec_checksum [0x01, 0x07, 0x01, 0xF4, 0x01, 0xE8, 0x03])"
proof -
  obtain s1 where s1: "moveTimeWrite 9 77 5 (boot quiet) = Returned () s1" and i1: "intact s1"
    using w_moveTimeWrite [OF intact_boot, of 9 77 5 quiet] by blast
  obtain s2 where s2: "moveStop 3 s1 = Returned () s2"
    using w_moveStop [OF i1, of 3] by blast
  have "run [(9, MoveTimeWrite 77 5), (3, MoveStop)] (boot quiet) = Some s2"
    by (simp add: s1 s2)
  with moveTimeWrite_500_1000 [OF this] show ?thesis by blast
qed

subsection \<open>C2\<close>

text \<open>
  C2. Every frame a command builds and sends, after any history, ends in the checksum
  of its bytes from the address byte through the last payload byte: the low byte of the
  complement of their sum. Every reply that \<open>checkMessage\<close> accepts does too, and
  \<open>checksum\<close> recomputed on an accepted reply gives its trailing byte.
\<close>

theorem checksum_of_every_frame:
  "(run h (boot t) = Some s \<and> after (invoke a c s) = Some s' \<longrightarrow>
      (\<exists>f. tx (serial s') = tx (serial s) @ f \<and> length f = unat (f ! 3) + 3
         \<and> last f = spec_checksum (take (unat (f ! 3)) (drop 2 f))))
   \<and> (length buf = 10 \<and> checkMessage buf expectedCommandId expectedSize = Some True \<longrightarrow>
        buf ! (unat (buf ! 3) + 2) = spec_checksum (take (unat (buf ! 3)) (drop 2 buf))
        \<and> checksum buf = Some (buf ! (unat (buf ! 3) + 2)))"
proof (intro conjI impI)
  assume a: "run h (boot t) = Some s \<and> after (invoke a c s) = Some s'"
  then have "tx (serial s') = tx (serial s) @ request a c"
    using invoke_sent [OF reached_intact] by blast
  moreover note encode_wf [OF payload_length, of "target a c" "commandId c" c]
  ultimately show "\<exists>f. tx (serial s') = tx (serial s) @ f \<and> length f = unat (f ! 3) + 3
         \<and> last f = spec_checksum (take (unat (f ! 3)) (drop 2 f))"
    by (intro exI [of _ "request a c"]) (simp add: request_def)
next
  assume b: "length buf = 10 \<and> checkMessage buf expectedCommandId expectedSize = Some True"
  then have e: "unat (buf ! 3) = expectedSize" and l: "expectedSize + 2 < length buf"
    by (auto simp add: checkMessage_def split: if_splits)
  then have ck: "checksum buf = Some (spec_checksum (take (unat (buf ! 3)) (drop 2 buf)))"
    by (intro checksum_eq) simp
  with b e show "buf ! (unat (buf ! 3) + 2) = spec_checksum (take (unat (buf ! 3)) (drop 2 buf))"
    by (auto simp add: checkMessage_def split: if_splits)
  with ck show "checksum buf = Some (buf ! (unat (buf ! 3) + 2))" by simp
qed

theorem checksum_of_every_frame_witness:
  "\<exists>s'. run [] (boot quiet) = Some (boot quiet)
     \<and> after (invoke 1 (MoveTimeWrite 500 1000) (boot quiet)) = Some s'
     \<and> (\<exists>f. tx (serial s') = tx (serial (boot quiet)) @ f \<and> length f = unat (f ! 3) + 3
         \<and> last f = spec_checksum (take (unat (f ! 3)) (drop 2 f)))
     \<and> length [0x55, 0x55, 0x07, 0x04, 0x0E, 0x07, 0xDF, 0, 0, 0 :: u8] = 10
     \<and> checkMessage [0x55, 0x55, 0x07, 0x04, 0x0E, 0x07, 0xDF, 0, 0, 0] 0x0E 4 = Some True
     \<and> checksum [0x55, 0x55, 0x07, 0x04, 0x0E, 0x07, 0xDF, 0, 0, 0] = Some 0xDF"
proof -
  let ?reply = "[0x55, 0x55, 0x07, 0x04, 0x0E, 0x07, 0xDF, 0, 0, 0 :: u8]"
  obtain s' where "moveTimeWrite 1 500 1000 (boot quiet) = Returned () s'"
    using w_moveTimeWrite [OF intact_boot, of 1 500 1000 quiet] by blast
  then have a: "after (invoke 1 (MoveTimeWrite 500 1000) (boot quiet)) = Some s'" by simp
  have "checksum ?reply = Some 0xDF"
    by (subst checksum_eq) (simp_all add: spec_checksum_def)
  then have c: "checkMessage ?reply 0x0E 4 = Some True"
    by (simp add: checkMessage_def)
  from checksum_of_every_frame [of "[]" quiet "boot quiet" 1 "MoveTimeWrite 500 1000" s' ?reply "0x0E" 4]
    a c show ?thesis by auto
qed

subsection \<open>C3\<close>

text \<open>
  C3, as stated, fails. The length byte L counts the bytes from itself to the checksum,
  so a frame has L + 3 bytes: two header bytes, the address, and L more. For the frame
  of C1, L = 7: \<open>sendBuf\<close> writes ten bytes, not L + 2 = 9.
\<close>

theorem sendBuf_writes_ten_for_length_seven:
  "sendBuf [0x55, 0x55, 0x01, 0x07, 0x01, 0xF4, 0x01, 0xE8, 0x03, 0x16] quiet
     = Some (quiet\<lparr>tx := [0x55, 0x55, 0x01, 0x07, 0x01, 0xF4, 0x01, 0xE8, 0x03, 0x16]\<rparr>)
   \<and> length [0x55, 0x55, 0x01, 0x07, 0x01, 0xF4, 0x01, 0xE8, 0x03, 0x16 :: u8] = 10
   \<and> unat ([0x55, 0x55, 0x01, 0x07, 0x01, 0xF4, 0x01, 0xE8, 0x03, 0x16 :: u8] ! 3) + 2 = 9"
  by (subst sendBuf_eq) (simp_all add: quiet_def)

text \<open>
  C3, amended. For every buffer whose length byte L is at most 7 (every frame the
  commands build), \<open>sendBuf\<close> writes exactly the first L + 3 bytes of the buffer, the
  whole frame, in order from the first header byte.
\<close>

theorem sendBuf_writes_length_plus_three:
  assumes "length buf = 10" and "unat (buf ! 3) \<le> 7"
  shows "sendBuf buf t = Some (t\<lparr>tx := tx t @ take (unat (buf ! 3) + 3) buf\<rparr>)
     \<and> length (take (unat (buf ! 3) + 3) buf) = unat (buf ! 3) + 3"
  using assms by (simp add: sendBuf_eq)

theorem sendBuf_writes_length_plus_three_witness:
  "length [0x55, 0x55, 0xFE, 0x03, 0x0E, 0xF0, 0, 0, 0, 0 :: u8] = 10
   \<and> sendBuf [0x55, 0x55, 0xFE, 0x03, 0x0E, 0xF0, 0, 0, 0, 0] quiet
       = Some (quiet\<lparr>tx := [0x55, 0x55, 0xFE, 0x03, 0x0E, 0xF0]\<rparr>)"
  using sendBuf_writes_length_plus_three [of "[0x55, 0x55, 0xFE, 0x03, 0x0E, 0xF0, 0, 0, 0, 0]" quiet]
  by (simp add: quiet_def)

subsection \<open>C4\<close>

text \<open>
  C4. \<open>checkMessage\<close>, for a reply payload of up to four bytes (the ten-byte buffer
  holds no more), rejects exactly when the length byte is not the expected payload size
  plus 3, or the command byte is not the expected one, or the trailing byte is not the
  recomputed checksum; otherwise it accepts.
\<close>

theorem checkMessage_accepts_iff:
  assumes "length buf = 10" and "expectedReplyPayloadSize \<le> 4"
  shows "checkMessage buf expectedCommandId (expectedReplyPayloadSize + 3)
     = Some (\<not> (unat (buf ! 3) \<noteq> expectedReplyPayloadSize + 3
                  \<or> buf ! 4 \<noteq> expectedCommandId
                  \<or> buf ! (unat (buf ! 3) + 2)
                       \<noteq> spec_checksum (take (unat (buf ! 3)) (drop 2 buf))))"
proof (cases "unat (buf ! 3) = expectedReplyPayloadSize + 3")
  case False
  then show ?thesis by (simp add: checkMessage_def)
next
  case True
  with assms have "unat (buf ! 3) + 2 \<le> length buf" by simp
  from checksum_eq [OF this] True assms show ?thesis
    by (simp add: checkMessage_def)
qed

theorem checkMessage_accepts_iff_witness:
  "length [0x55, 0x55, 0x07, 0x04, 0x0E, 0x07, 0xDF, 0, 0, 0 :: u8] = 10 \<and> (1 :: nat) \<le> 4
   \<and> checkMessage [0x55, 0x55, 0x07, 0x04, 0x0E, 0x07, 0xDF, 0, 0, 0] 0x0E (1 + 3) = Some True
   \<and> checkMessage [0x55, 0x55, 0x07, 0x04, 0x0E, 0x07, 0xDE, 0, 0, 0] 0x0E (1 + 3) = Some False
   \<and> checkMessage [0x55, 0x55, 0x07, 0x04, 0x0E, 0x07, 0xDF, 0, 0, 0] 0x0F (1 + 3) = Some False
   \<and> checkMessage [0x55, 0x55, 0x07, 0x04, 0x0E, 0x07, 0xDF, 0, 0, 0] 0x0E (2 + 3) = Some False"
  using checkMessage_accepts_iff [of "[0x55, 0x55, 0x07, 0x04, 0x0E, 0x07, 0xDF, 0, 0, 0]" 1 "0x0E"]
    checkMessage_accepts_iff [of "[0x55, 0x55, 0x07, 0x04, 0x0E, 0x07, 0xDE, 0, 0, 0]" 1 "0x0E"]
    checkMessage_accepts_iff [of "[0x55, 0x55, 0x07, 0x04, 0x0E, 0x07, 0xDF, 0, 0, 0]" 1 "0x0F"]
    checkMessage_accepts_iff [of "[0x55, 0x55, 0x07, 0x04, 0x0E, 0x07, 0xDF, 0, 0, 0]" 2 "0x0E"]
  by (simp add: spec_checksum_def)

subsection \<open>C5\<close>

text \<open>
  C5, as stated, fails. The busy wait polls the line at most \<open>MaxBusyLoop\<close> times, and
  the test that follows the loop polls it once more. When the line answers fewer than 4
  to every poll of the loop and the reply is there at that last poll, the read
  succeeds: \<open>idRead\<close> returns the id 7.
\<close>

theorem late_reply_is_read:
  "starvedFor MaxBusyLoop (serial (boot late))
   \<and> idRead 5 (boot late)
       = Returned 7
          \<lparr>serial = late\<lparr>polls := MaxBusyLoop + 3, gets := 7,
                          tx := [0x55, 0x55, 0xFE, 0x03, 0x0E, 0xF0], flushes := 1\<rparr>,
           statics = initial
             (F_idRead := [0x55, 0x55, 0xFE, 0x03, 0x0E, 0xF0, 0, 0, 0, 0],
              F_getMessage := [0x55, 0x55, 0x07, 0x04, 0x0E, 0x07, 0xDF, 0, 0, 0])\<rparr>"
proof
  show "starvedFor MaxBusyLoop (serial (boot late))"
    by (simp add: starvedFor_def boot_def late_fields)
next
  let ?buf = "[0x55, 0x55, 0xFE, 0x03, 0x0E, 0xF0, 0, 0, 0, 0 :: u8]"
  have ck: "checksum [0x55, 0x55, 0xFE, 0x03, 0x0E, 0, 0, 0, 0, 0] = Some 0xF0"
    by (subst checksum_eq) (simp_all add: spec_checksum_def)
  have sb: "sendBuf ?buf (serialFlush late)
      = Some (late\<lparr>tx := [0x55, 0x55, 0xFE, 0x03, 0x0E, 0xF0], flushes := Suc 0\<rparr>)"
    by (subst sendBuf_eq) (simp_all add: serialFlush_def late_fields)
  have gm: "getMessage \<lparr>serial = late\<lparr>tx := [0x55, 0x55, 0xFE, 0x03, 0x0E, 0xF0], flushes := Suc 0\<rparr>,
        statics = initial(F_idRead := ?buf)\<rparr>
     = Returned ()
        \<lparr>serial = late\<lparr>polls := MaxBusyLoop + 3, gets := 7,
                        tx := [0x55, 0x55, 0xFE, 0x03, 0x0E, 0xF0], flushes := Suc 0\<rparr>,
         statics = initial
             (F_idRead := ?buf,
              F_getMessage := [0x55, 0x55, 0x07, 0x04, 0x0E, 0x07, 0xDF, 0, 0, 0])\<rparr>"
    by (subst getMessage_late) (simp_all add: eval_nat_numeral)
  have rc: "checksum [0x55, 0x55, 0x07, 0x04, 0x0E, 0x07, 0xDF, 0, 0, 0] = Some 0xDF"
    by (subst checksum_eq) (simp_all add: spec_checksum_def)
  show "idRead 5 (boot late)
       = Returned 7
          \<lparr>serial = late\<lparr>polls := MaxBusyLoop + 3, gets := 7,
                          tx := [0x55, 0x55, 0xFE, 0x03, 0x0E, 0xF0], flushes := 1\<rparr>,
           statics = initial
             (F_idRead := ?buf,
              F_getMessage := [0x55, 0x55, 0x07, 0x04, 0x0E, 0x07, 0xDF, 0, 0, 0])\<rparr>"
    unfolding idRead_def Let_def boot_def
    by (simp add: template_def FrameHeader_def pholder_def upds ck sb gm checkMessage_def rc)
qed

text \<open>
  C5, amended. For every read command, after any history: if the line answers fewer
  than 4 to each poll of the busy wait and to the poll of the test that follows it
  (\<open>MaxBusyLoop + 1\<close> polls), the command throws the header-timeout error and returns
  no result.
\<close>

theorem read_header_timeout:
  assumes "run h (boot t) = Some s" and "isRead c"
    and "starvedFor (Suc MaxBusyLoop) (serial s)"
  shows "\<exists>s'. invoke a c s = Thrown HeaderTimeoutError s'"
proof -
  note i = reached_intact [OF assms(1)]
  have g: "\<exists>s'. genericRead a f rs s = Thrown HeaderTimeoutError s'"
    if "f \<noteq> F_getMessage" and "initial f ! 3 = 3" for f rs
    using genericRead_starved [OF i that assms(3)] .
  from assms(2) show ?thesis
  proof (cases c)
    case IdRead
    with idRead_starved [OF i assms(3), of a] show ?thesis by auto
  next
    case MoveTimeRead
    with g [of F_moveTimeRead 7] show ?thesis by (auto simp add: moveTimeRead_def template_def)
  next
    case MoveTimeWaitRead
    with g [of F_moveTimeWaitRead 7] show ?thesis by (auto simp add: moveTimeWaitRead_def template_def)
  next
    case AngleOffsetRead
    with g [of F_angleOffsetRead 4] show ?thesis by (auto simp add: angleOffsetRead_def template_def)
  next
    case AngleLimitRead
    with g [of F_angleLimitRead 7] show ?thesis by (auto simp add: angleLimitRead_def template_def)
  next
    case VinLimitRead
    with g [of F_vinLimitRead 7] show ?thesis by (auto simp add: vinLimitRead_def template_def)
  next
    case TempMaxLimitRead
    with g [of F_tempMaxLimitRead 4] show ?thesis by (auto simp add: tempMaxLimitRead_def template_def)
  next
    case TempRead
    with g [of F_tempRead 4] show ?thesis by (auto simp add: tempRead_def template_def)
  next
    case VinRead
    with g [of F_vinRead 5] show ?thesis by (auto simp add: vinRead_def template_def)
  next
    case PosRead
    with g [of F_posRead 5] show ?thesis by (auto simp add: posRead_def template_def)
  next
    case ServoOrMotorModeRead
    with g [of F_servoOrMotorModeRead 7] show ?thesis
      by (auto simp add: servoOrMotorModeRead_def template_def)
  next
    case LoadOrUnloadRead
    with g [of F_loadOrUnloadRead 4] show ?thesis by (auto simp add: loadOrUnloadRead_def template_def)
  next
    case LedCtrlRead
    with g [of F_ledCtrlRead 4] show ?thesis by (auto simp add: ledCtrlRead_def template_def)
  next
    case LedErrorRead
    with g [of F_ledErrorRead 4] show ?thesis by (auto simp add: ledErrorRead_def template_def)
  qed (simp_all add: isRead_def)
qed

theorem read_header_timeout_witness:
  "\<exists>s s'. run [(1, LedCtrlWrite Off)] (boot quiet) = Some s \<and> isRead PosRead
     \<and> starvedFor (Suc MaxBusyLoop) (serial s)
     \<and> invoke 1 PosRead s = Thrown HeaderTimeoutError s'"
proof -
  obtain s1 where s1: "ledCtrlWrite 1 Off (boot quiet) = Returned () s1"
    and t1: "serial s1 = (serial (boot quiet))\<lparr>tx := tx (serial (boot quiet)) @ request 1 (LedCtrlWrite Off)\<rparr>"
    using w_ledCtrlWrite [OF intact_boot, of 1 Off quiet] by blast
  have r: "run [(1, LedCtrlWrite Off)] (boot quiet) = Some s1" by (simp add: s1)
  have st: "starvedFor (Suc MaxBusyLoop) (serial s1)"
    by (simp add: t1 starvedFor_def boot_def quiet_def)
  have rd: "isRead PosRead" by (simp add: isRead_def)
  from read_header_timeout [OF r rd st, of 1] r rd st show ?thesis by blast
qed

subsection \<open>C6\<close>

text \<open>
  C6, as stated, fails in its second half. \<open>servoOrMotorModeWrite\<close> encodes the
  clamped speed whatever the mode is: with mode Servo and speed 500 the two speed bytes
  are F4 01, not zero.
\<close>

theorem servo_mode_speed_not_zeroed:
  "servoOrMotorModeWrite 1 Servo 500 (boot quiet)
     = Returned ()
        \<lparr>serial = quiet\<lparr>tx := [0x55, 0x55, 0x01, 0x07, 0x1D, 0x00, 0x00, 0xF4, 0x01, 0xE5]\<rparr>,
         statics = initial(F_servoOrMotorModeWrite :=
                     [0x55, 0x55, 0x01, 0x07, 0x1D, 0x00, 0x00, 0xF4, 0x01, 0xE5])\<rparr>"
  unfolding servoOrMotorModeWrite_def Let_def clamp_speed boot_def
  apply (simp add: template_def FrameHeader_def pholder_def upds)
  apply (subst finishWrite_eq)
  apply (simp_all add: Servo_def clamp_def low_le16 high_le16 spec_checksum_def quiet_def)
  done

text \<open>
  C6, amended. For every call of \<open>servoOrMotorModeWrite\<close>, in either mode, the call
  returns, the mode byte of the frame is the mode, and the speed field of the frame,
  read as a signed 16-bit little-endian value, is the speed clamped to [-1000, 1000].
\<close>

theorem servoOrMotorModeWrite_speed:
  assumes "run h (boot t) = Some s"
  shows "\<exists>s' f. servoOrMotorModeWrite a md spd s = Returned () s'
     \<and> tx (serial s') = tx (serial s) @ f \<and> length f = 10
     \<and> f ! 5 = modeByte md
     \<and> sint (word_of_int (lowHigh (f ! 7) (f ! 8)) :: i16) = clamp (- 1000) 1000 (sint spd)"
proof -
  from w_servoOrMotorModeWrite [OF reached_intact [OF assms], of a md spd]
  obtain s' where "servoOrMotorModeWrite a md spd s = Returned () s'"
    and "tx (serial s') = tx (serial s) @ request a (ServoOrMotorModeWrite md spd)"
    by auto
  moreover have "length (request a (ServoOrMotorModeWrite md spd)) = 10"
    by (simp add: request_def encode_def payload_def le16_def)
  moreover have "request a (ServoOrMotorModeWrite md spd) ! 5 = modeByte md"
    by (simp add: request_def encode_def payload_def)
  moreover have "request a (ServoOrMotorModeWrite md spd) ! 7 = le16 (word_of_int (clamp (- 1000) 1000 (sint spd))) ! 0"
    "request a (ServoOrMotorModeWrite md spd) ! 8 = le16 (word_of_int (clamp (- 1000) 1000 (sint spd))) ! 1"
    by (simp_all add: request_def encode_def payload_def le16_def)
  then have "word_of_int (lowHigh (request a (ServoOrMotorModeWrite md spd) ! 7)
        (request a (ServoOrMotorModeWrite md spd) ! 8))
      = (word_of_int (clamp (- 1000) 1000 (sint spd)) :: i16)"
    by (simp only: le16_decode)
  ultimately show ?thesis
    by (auto simp add: sint_clamp16)
qed

theorem servoOrMotorModeWrite_speed_witness:
  "\<exists>s s' f. run [(1, ServoOrMotorModeWrite Motor 2000)] (boot quiet) = Some s
     \<and> servoOrMotorModeWrite 1 Servo 500 s = Returned () s'
     \<and> tx (serial s') = tx (serial s) @ f \<and> length f = 10
     \<and> f ! 5 = modeByte Servo
     \<and> sint (word_of_int (lowHigh (f ! 7) (f ! 8)) :: i16) = 500"
proof -
  obtain s1 where s1: "servoOrMotorModeWrite 1 Motor 2000 (boot quiet) = Returned () s1"
    using w_servoOrMotorModeWrite [OF intact_boot, of 1 Motor 2000 quiet] by blast
  have r: "run [(1, ServoOrMotorModeWrite Motor 2000)] (boot quiet) = Some s1"
    by (simp add: s1)
  have "clamp (- 1000) 1000 (sint (500 :: i16)) = 500" by (simp add: clamp_def)
  with servoOrMotorModeWrite_speed [OF r, of 1 Servo 500] r show ?thesis by auto
qed

subsection \<open>C7\<close>

text \<open>
  C7. For all 16-bit inputs \<open>minL\<close> and \<open>maxL\<close> of \<open>angleLimitWrite\<close>, after any
  history, the call returns and the two fields of the frame it sends, read as signed
  16-bit little-endian values, are the clamped inputs: the min field is \<open>minL\<close>
  clamped to [0, 999], and the max field is \<open>maxL\<close> cut at 1000 and then raised to at
  least the min field plus 1. Hence 0 \<le> min \<le> 999 and min + 1 \<le> max \<le> 1000; an
  input pair that satisfies these bounds already is encoded unchanged.
\<close>

theorem angleLimitWrite_clamped:
  assumes "run h (boot t) = Some s"
  shows "\<exists>s' f. angleLimitWrite a minL maxL s = Returned () s'
     \<and> tx (serial s') = tx (serial s) @ f \<and> length f = 10
     \<and> sint (word_of_int (lowHigh (f ! 5) (f ! 6)) :: i16) = clamp 0 999 (sint minL)
     \<and> sint (word_of_int (lowHigh (f ! 7) (f ! 8)) :: i16)
           = max (clamp 0 999 (sint minL) + 1) (min 1000 (sint maxL))
     \<and> 0 \<le> sint (word_of_int (lowHigh (f ! 5) (f ! 6)) :: i16)
     \<and> sint (word_of_int (lowHigh (f ! 5) (f ! 6)) :: i16) \<le> 999
     \<and> sint (word_of_int (lowHigh (f ! 5) (f ! 6)) :: i16) + 1
           \<le> sint (word_of_int (lowHigh (f ! 7) (f ! 8)) :: i16)
     \<and> sint (word_of_int (lowHigh (f ! 7) (f ! 8)) :: i16) \<le> 1000
     \<and> (0 \<le> sint minL \<and> sint minL \<le> 999 \<and> sint minL + 1 \<le> sint maxL \<and> sint maxL \<le> 1000
          \<longrightarrow> word_of_int (lowHigh (f ! 5) (f ! 6)) = minL
              \<and> word_of_int (lowHigh (f ! 7) (f ! 8)) = maxL)"
proof -
  let ?r = "request a (AngleLimitWrite minL maxL)"
  let ?mn = "clamp 0 999 (sint minL)"
  let ?mx = "max (?mn + 1) (min 1000 (sint maxL))"
  from w_angleLimitWrite [OF reached_intact [OF assms], of a minL maxL]
  obtain s' where ret: "angleLimitWrite a minL maxL s = Returned () s'"
    and tx: "tx (serial s') = tx (serial s) @ ?r"
    by auto
  have len: "length ?r = 10"
    by (simp add: request_def encode_def payload_def le16_def)
  have "?r ! 5 = le16 (word_of_int ?mn) ! 0" "?r ! 6 = le16 (word_of_int ?mn) ! 1"
    "?r ! 7 = le16 (word_of_int ?mx) ! 0" "?r ! 8 = le16 (word_of_int ?mx) ! 1"
    by (simp_all add: request_def encode_def payload_def le16_def)
  then have w: "word_of_int (lowHigh (?r ! 5) (?r ! 6)) = (word_of_int ?mn :: i16)"
    "word_of_int (lowHigh (?r ! 7) (?r ! 8)) = (word_of_int ?mx :: i16)"
    by (simp_all only: le16_decode)
  have smn: "sint (word_of_int ?mn :: i16) = ?mn"
    by (rule sint_small) (auto simp add: clamp_def)
  have smx: "sint (word_of_int ?mx :: i16) = ?mx"
    by (rule sint_small) (auto simp add: clamp_def)
  have b: "0 \<le> ?mn" "?mn \<le> 999" "?mn + 1 \<le> ?mx" "?mx \<le> 1000"
    by (auto simp add: clamp_def)
  have same: "(word_of_int ?mn :: i16) = minL \<and> (word_of_int ?mx :: i16) = maxL"
    if "0 \<le> sint minL \<and> sint minL \<le> 999 \<and> sint minL + 1 \<le> sint maxL \<and> sint maxL \<le> 1000"
  proof -
    from that have "?mn = sint minL" "?mx = sint maxL" by (auto simp add: clamp_def)
    then show ?thesis by simp
  qed
  show ?thesis
  proof (intro exI [of _ s'] exI [of _ ?r] conjI impI)
    show "angleLimitWrite a minL maxL s = Returned () s'" by (rule ret)
    show "tx (serial s') = tx (serial s) @ ?r" by (rule tx)
    show "length ?r = 10" by (rule len)
    show "sint (word_of_int (lowHigh (?r ! 5) (?r ! 6)) :: i16) = ?mn"
      by (simp only: w smn)
    show "sint (word_of_int (lowHigh (?r ! 7) (?r ! 8)) :: i16) = ?mx"
      by (simp only: w smx)
    show "0 \<le> sint (word_of_int (lowHigh (?r ! 5) (?r ! 6)) :: i16)"
      using b(1) by (simp only: w smn)
    show "sint (word_of_int (lowHigh (?r ! 5) (?r ! 6)) :: i16) \<le> 999"
      using b(2) by (simp only: w smn)
    show "sint (word_of_int (lowHigh (?r ! 5) (?r ! 6)) :: i16) + 1
        \<le> sint (word_of_int (lowHigh (?r ! 7) (?r ! 8)) :: i16)"
      using b(3) by (simp only: w smn smx)
    show "sint (word_of_int (lowHigh (?r ! 7) (?r ! 8)) :: i16) \<le> 1000"
      using b(4) by (simp only: w smx)
  next
    assume h: "0 \<le> sint minL \<and> sint minL \<le> 999 \<and> sint minL + 1 \<le> sint maxL \<and> sint maxL \<le> 1000"
    from same [OF h] show "word_of_int (lowHigh (?r ! 5) (?r ! 6)) = minL"
      by (simp only: w)
  next
    assume h: "0 \<le> sint minL \<and> sint minL \<le> 999 \<and> sint minL + 1 \<le> sint maxL \<and> sint maxL \<le> 1000"
    from same [OF h] show "word_of_int (lowHigh (?r ! 7) (?r ! 8)) = maxL"
      by (simp only: w)
  qed
qed

text \<open>
  The witness: after an earlier \<open>angleLimitWrite(10, 20)\<close> by another client, the inputs
  (1500, -7) are encoded as (999, 1000), and the inputs (100, 900), which are within the
  bounds, are encoded unchanged.
\<close>

theorem angleLimitWrite_clamped_witness:
  "\<exists>s s' f s'' g. run [(2, AngleLimitWrite 10 20)] (boot quiet) = Some s
     \<and> angleLimitWrite 1 1500 (- 7) s = Returned () s'
     \<and> tx (serial s') = tx (serial s) @ f \<and> length f = 10
     \<and> sint (word_of_int (lowHigh (f ! 5) (f ! 6)) :: i16) = 999
     \<and> sint (word_of_int (lowHigh (f ! 7) (f ! 8)) :: i16) = 1000
     \<and> angleLimitWrite 1 100 900 s = Returned () s''
     \<and> tx (serial s'') = tx (serial s) @ g \<and> length g = 10
     \<and> (word_of_int (lowHigh (g ! 5) (g ! 6)) :: i16) = 100
     \<and> (word_of_int (lowHigh (g ! 7) (g ! 8)) :: i16) = 900"
proof -
  obtain s1 where s1: "angleLimitWrite 2 10 20 (boot quiet) = Returned () s1"
    using w_angleLimitWrite [OF intact_boot, of 2 10 20 quiet] by blast
  have r: "run [(2, AngleLimitWrite 10 20)] (boot quiet) = Some s1"
    by (simp add: s1)
  have c1: "clamp 0 999 (sint (1500 :: i16)) = 999"
    and c2: "max (999 + 1) (min 1000 (sint (- 7 :: i16))) = (1000 :: int)"
    by (simp_all add: clamp_def)
  from angleLimitWrite_clamped [OF r, of 1 1500 "- 7", unfolded c1 c2]
  obtain s' f where
    f1: "angleLimitWrite 1 1500 (- 7) s1 = Returned () s'"
    and f2: "tx (serial s') = tx (serial s1) @ f" and f3: "length f = 10"
    and f4: "sint (word_of_int (lowHigh (f ! 5) (f ! 6)) :: i16) = 999"
    and f5: "sint (word_of_int (lowHigh (f ! 7) (f ! 8)) :: i16) = 1000"
    by (elim exE conjE)
  from angleLimitWrite_clamped [OF r, of 1 100 900]
  obtain s'' g where
    g1: "angleLimitWrite 1 100 900 s1 = Returned () s''"
    and g2: "tx (serial s'') = tx (serial s1) @ g" and g3: "length g = 10"
    and imp: "0 \<le> sint (100 :: i16) \<and> sint (100 :: i16) \<le> 999
          \<and> sint (100 :: i16) + 1 \<le> sint (900 :: i16) \<and> sint (900 :: i16) \<le> 1000
          \<longrightarrow> word_of_int (lowHigh (g ! 5) (g ! 6)) = (100 :: i16)
              \<and> word_of_int (lowHigh (g ! 7) (g ! 8)) = (900 :: i16)"
    by (elim exE conjE)
  from imp have g4: "word_of_int (lowHigh (g ! 5) (g ! 6)) = (100 :: i16)"
    and g5: "word_of_int (lowHigh (g ! 7) (g ! 8)) = (900 :: i16)"
    by simp_all
  show ?thesis
    by (intro exI [of _ s1] exI [of _ s'] exI [of _ f] exI [of _ s''] exI [of _ g] conjI
        r f1 f2 f3 f4 f5 g1 g2 g3 g4 g5)
qed

subsection \<open>C8\<close>

text \<open>
  C8. \<open>idRead\<close>, by a client bound to any address and after any history, puts the
  request 55 55 FE 03 0E F0 on the line: its address byte is the broadcast address 254.
  (The call then waits for the reply; the statement covers every way it ends that is
  defined behaviour.)
\<close>

theorem idRead_targets_broadcast:
  assumes "run h (boot t) = Some s" and "after (idRead a s) = Some s'"
  shows "tx (serial s') = tx (serial s) @ [0x55, 0x55, 254, 3, 14, 0xF0]"
  using idRead_sent [OF reached_intact [OF assms(1)] assms(2)]
  by (simp add: encode_def spec_checksum_def)

theorem idRead_targets_broadcast_witness:
  "\<exists>s s'. run [(5, IdWrite 5)] (boot quiet) = Some s \<and> after (idRead 5 s) = Some s'
     \<and> tx (serial s') = tx (serial s) @ [0x55, 0x55, 254, 3, 14, 0xF0]"
proof -
  obtain s1 where s1: "idWrite 5 5 (boot quiet) = Returned () s1" and i1: "intact s1"
    and t1: "serial s1 = (serial (boot quiet))\<lparr>tx := tx (serial (boot quiet)) @ request 5 (IdWrite 5)\<rparr>"
    using w_idWrite [OF intact_boot, of 5 5 quiet] by blast
  have r: "run [(5, IdWrite 5)] (boot quiet) = Some s1" by (simp add: s1)
  have "starvedFor (Suc MaxBusyLoop) (serial s1)"
    by (simp add: t1 starvedFor_def boot_def quiet_def)
  from idRead_starved [OF i1 this, of 5] obtain s2 where "idRead 5 s1 = Thrown HeaderTimeoutError s2" ..
  then have a: "after (idRead 5 s1) = Some s2" by simp
  from idRead_targets_broadcast [OF r a] r a show ?thesis by blast
qed

subsection \<open>C9\<close>

text \<open>
  C9, as stated, fails in its first half. A request frame is not constructed afresh:
  each command works in its function-local static buffer, which all calls and all
  objects share and which keeps what the previous call wrote. After
  \<open>moveTimeWrite(500, 1000)\<close> by a client bound to address 1, the static buffer of
  \<open>moveTimeWrite\<close> holds that frame and no longer its initialiser.
\<close>

theorem static_request_buffer_persists:
  "run [(1, MoveTimeWrite 500 1000)] (boot quiet)
     = Some \<lparr>serial = quiet\<lparr>tx := [0x55, 0x55, 0x01, 0x07, 0x01, 0xF4, 0x01, 0xE8, 0x03, 0x16]\<rparr>,
             statics = initial(F_moveTimeWrite :=
                         [0x55, 0x55, 0x01, 0x07, 0x01, 0xF4, 0x01, 0xE8, 0x03, 0x16])\<rparr>
   \<and> initial F_moveTimeWrite = [0x55, 0x55, 0x00, 0x07, 0x01, 0x00, 0x00, 0x00, 0x00, 0x00]"
proof -
  have "moveTimeWrite 1 500 1000 (boot quiet) = Returned ()
     \<lparr>serial = quiet\<lparr>tx := [0x55, 0x55, 0x01, 0x07, 0x01, 0xF4, 0x01, 0xE8, 0x03, 0x16]\<rparr>,
             statics = initial(F_moveTimeWrite :=
                         [0x55, 0x55, 0x01, 0x07, 0x01, 0xF4, 0x01, 0xE8, 0x03, 0x16])\<rparr>"
    unfolding moveTimeWrite_def Let_def clamp_pos boot_def
    apply (simp add: template_def FrameHeader_def pholder_def upds)
    apply (subst finishWrite_eq)
    apply (simp_all add: clamp_def low_le16 high_le16 spec_checksum_def quiet_def)
    done
  then show ?thesis by (simp add: template_def FrameHeader_def pholder_def)
qed

text \<open>
  C9, amended. The commands reuse static request buffers, but nothing of an earlier call
  reaches the line: for any two histories of calls, on any two lines, the bytes that a
  call sends are the same after both; they depend only on the call's arguments and on
  the address the client is bound to.
\<close>

theorem sent_history_independent:
  assumes "run h1 (boot t1) = Some s1" and "run h2 (boot t2) = Some s2"
    and "sent a c s1 = Some x" and "sent a c s2 = Some y"
  shows "x = y"
  using sent_request [OF reached_intact [OF assms(1)] assms(3)]
    sent_request [OF reached_intact [OF assms(2)] assms(4)]
  by simp

theorem sent_history_independent_witness:
  "\<exists>s1 s2 x y. run [] (boot quiet) = Some s1
     \<and> run [(9, MoveTimeWrite 77 5), (1, MoveTimeWrite 1000 0)] (boot quiet) = Some s2
     \<and> statics s1 F_moveTimeWrite \<noteq> statics s2 F_moveTimeWrite
     \<and> sent 1 (MoveTimeWrite 500 1000) s1 = Some x
     \<and> sent 1 (MoveTimeWrite 500 1000) s2 = Some y \<and> x = y"
proof -
  let ?s0 = "boot quiet"
  obtain s1 where s1: "moveTimeWrite 9 77 5 ?s0 = Returned () s1" and i1: "intact s1"
    using w_moveTimeWrite [OF intact_boot, of 9 77 5 quiet] by blast
  obtain s2 where s2: "moveTimeWrite 1 1000 0 s1 = Returned () s2" and i2: "intact s2"
    using w_moveTimeWrite [OF i1, of 1 1000 0] by blast
  have r1: "run [] ?s0 = Some ?s0" by simp
  have r2: "run [(9, MoveTimeWrite 77 5), (1, MoveTimeWrite 1000 0)] ?s0 = Some s2"
    by (simp add: s1 s2)
  obtain u where u: "moveTimeWrite 1 500 1000 ?s0 = Returned () u"
    using w_moveTimeWrite [OF intact_boot, of 1 500 1000 quiet] by blast
  obtain v where v: "moveTimeWrite 1 500 1000 s2 = Returned () v"
    using w_moveTimeWrite [OF i2, of 1 500 1000] by blast
  have x: "sent 1 (MoveTimeWrite 500 1000) ?s0 = Some (drop (length (tx (serial ?s0))) (tx (serial u)))"
    by (simp add: sent_def u)
  have y: "sent 1 (MoveTimeWrite 500 1000) s2 = Some (drop (length (tx (serial s2))) (tx (serial v)))"
    by (simp add: sent_def v)
  have d: "statics ?s0 F_moveTimeWrite \<noteq> statics s2 F_moveTimeWrite"
    using static_moveTimeWrite [OF i1 s2]
    by (simp add: boot_def template_def spec_defs)
  from sent_history_independent [OF r1 r2 x y] r1 r2 x y d show ?thesis by blast
qed

subsection \<open>C10\<close>

text \<open>
  C10. The encoding of \<open>PowerLed\<close> is inverted relative to the names: after any
  history, \<open>ledCtrlWrite(On)\<close> sends a frame with payload byte 00 and
  \<open>ledCtrlWrite(Off)\<close> one with payload byte 01; and when \<open>ledCtrlRead\<close> returns, its
  value is the payload byte of the reply (the sixth byte the call read from the line)
  cast to \<open>PowerLed\<close>: it is \<open>On\<close> exactly for the byte 0 and \<open>Off\<close> exactly for 1.
\<close>

theorem powerLed_encoding:
  assumes "run h (boot t) = Some s"
  shows "(\<exists>s' ck. ledCtrlWrite a On s = Returned () s'
            \<and> tx (serial s') = tx (serial s) @ [0x55, 0x55, a, 0x04, 0x21, 0x00, ck])
       \<and> (\<exists>s' ck. ledCtrlWrite a Off s = Returned () s'
            \<and> tx (serial s') = tx (serial s) @ [0x55, 0x55, a, 0x04, 0x21, 0x01, ck])
       \<and> (\<forall>v s'. ledCtrlRead a s = Returned v s' \<longrightarrow>
             v = PowerLed (word_of_int (rxScript (serial s) (gets (serial s) + 5)))
             \<and> (v = On) = (word_of_int (rxScript (serial s) (gets (serial s) + 5)) = (0 :: u8))
             \<and> (v = Off) = (word_of_int (rxScript (serial s) (gets (serial s) + 5)) = (1 :: u8)))"
proof (intro conjI allI impI)
  note i = reached_intact [OF assms]
  from w_ledCtrlWrite [OF i, of a On]
  show "\<exists>s' ck. ledCtrlWrite a On s = Returned () s'
            \<and> tx (serial s') = tx (serial s) @ [0x55, 0x55, a, 0x04, 0x21, 0x00, ck]"
    by (auto simp add: request_def encode_def payload_def target_def commandId_def On_def)
  from w_ledCtrlWrite [OF i, of a Off]
  show "\<exists>s' ck. ledCtrlWrite a Off s = Returned () s'
            \<and> tx (serial s') = tx (serial s) @ [0x55, 0x55, a, 0x04, 0x21, 0x01, ck]"
    by (auto simp add: request_def encode_def payload_def target_def commandId_def Off_def)
  fix v s'
  assume "ledCtrlRead a s = Returned v s'"
  then obtain r where g: "genericRead a F_ledCtrlRead 4 s = Returned r s'" and v: "v = PowerLed (r ! 5)"
    by (cases "genericRead a F_ledCtrlRead 4 s") (auto simp add: ledCtrlRead_def)
  from genericRead_Returned [OF g i] have "unat (r ! 3) = 4"
    and "unat (r ! 3) = 4 \<longrightarrow> r ! 5 = word_of_int (rxScript (serial s) (gets (serial s) + 5))"
    by (auto simp add: template_def checkMessage_def split: if_splits)
  with v show v': "v = PowerLed (word_of_int (rxScript (serial s) (gets (serial s) + 5)))"
    by simp
  then show "(v = On) = (word_of_int (rxScript (serial s) (gets (serial s) + 5)) = (0 :: u8))"
    "(v = Off) = (word_of_int (rxScript (serial s) (gets (serial s) + 5)) = (1 :: u8))"
    by (simp_all add: On_def Off_def)
qed

theorem powerLed_encoding_witness:
  "run [] (boot (ledReply 1)) = Some (boot (ledReply 1))
   \<and> (\<exists>s' ck. ledCtrlWrite 1 On (boot (ledReply 1)) = Returned () s'
         \<and> tx (serial s') = tx (serial (boot (ledReply 1))) @ [0x55, 0x55, 0x01, 0x04, 0x21, 0x00, ck])
   \<and> (\<exists>s' ck. ledCtrlWrite 1 Off (boot (ledReply 1)) = Returned () s'
         \<and> tx (serial s') = tx (serial (boot (ledReply 1))) @ [0x55, 0x55, 0x01, 0x04, 0x21, 0x01, ck])
   \<and> (\<exists>s'. ledCtrlRead 1 (boot (ledReply 1)) = Returned Off s')
   \<and> Off = PowerLed (word_of_int (rxScript (serial (boot (ledReply 1)))
                                     (gets (serial (boot (ledReply 1))) + 5)))"
proof -
  have r: "run [] (boot (ledReply 1)) = Some (boot (ledReply 1))" by simp
  obtain s3 where s3: "ledCtrlRead 1 (boot (ledReply 1)) = Returned Off s3"
    using ledCtrlRead_ledReply [of 1] by (auto simp add: Off_def)
  note th = powerLed_encoding [OF r, of 1]
  note a = th [THEN conjunct1] and b = th [THEN conjunct2, THEN conjunct1]
    and c = th [THEN conjunct2, THEN conjunct2, rule_format, OF s3, THEN conjunct1]
  show ?thesis by (intro conjI r a b exI [of _ s3] s3 c)
qed

end
